theory Spec2Isabelle
  imports Main "HOL-Library.Multiset"
begin

section \<open>Song records and strings\<close>

text \<open>
  A song is the dictionary built by \<^verbatim>\<open>MusicPlaylistManager._extract_song_info\<close>; the
  record has one field for each key. Strings are character lists; \<^verbatim>\<open>str.lower()\<close> is
  modelled on ASCII, where it maps the letters A to Z to a to z and leaves every other
  character alone.
\<close>

record song =
  filename :: string
  title :: string
  artist :: string
  file_type :: string
  file_path :: string
  file_size :: int

definition lower_char :: "char \<Rightarrow> char" where
  "lower_char c =
     (let n = (of_char c :: nat) in if 65 \<le> n \<and> n \<le> 90 then char_of (n + 32) else c)"

definition lower :: "string \<Rightarrow> string" where
  "lower s = map lower_char s"

text \<open>\<^verbatim>\<open>q in s\<close> on Python strings: \<open>q\<close> occurs in \<open>s\<close> as a contiguous block.\<close>

fun starts_with :: "string \<Rightarrow> string \<Rightarrow> bool" where
  "starts_with [] s = True"
| "starts_with (c # q) [] = False"
| "starts_with (c # q) (d # s) = (c = d \<and> starts_with q s)"

fun str_in :: "string \<Rightarrow> string \<Rightarrow> bool" where
  "str_in q [] = (q = [])"
| "str_in q (c # s) = (starts_with q (c # s) \<or> str_in q s)"

text \<open>A song with the given title and artist, for concrete runs.\<close>

definition mk_song :: "string \<Rightarrow> string \<Rightarrow> song" where
  "mk_song t a =
     \<lparr>filename = a @ '' - '' @ t, title = t, artist = a, file_type = ''.mp3'',
      file_path = ''music/'' @ a @ '' - '' @ t @ ''.mp3'', file_size = 1024\<rparr>"

section \<open>Queues, history and the player (stacks_queues_music.py)\<close>

subsection \<open>PrioritySongQueue\<close>

text \<open>
  The queue is a Python list of pairs \<^verbatim>\<open>(song, priority)\<close>.
  \<^verbatim>\<open>list.sort(key=lambda x: x[1], reverse=True)\<close> is a stable sort into descending
  key order (Python keeps the original order of equal keys also with
  \<^verbatim>\<open>reverse=True\<close>); on integer priorities that is the stable ascending sort on the
  negated key.
\<close>

type_synonym entry = "song \<times> int"

definition sort_desc :: "entry list \<Rightarrow> entry list" where
  "sort_desc q = sort_key (\<lambda>x. - snd x) q"

definition enqueue :: "song \<Rightarrow> int \<Rightarrow> entry list \<Rightarrow> entry list" where
  "enqueue s priority q = sort_desc (q @ [(s, priority)])"

definition dequeue :: "entry list \<Rightarrow> song option \<times> entry list" where
  "dequeue q = (case q of [] \<Rightarrow> (None, q) | e # rest \<Rightarrow> (Some (fst e), rest))"

text \<open>
  \<^verbatim>\<open>upvote\<close>: the loop over \<^verbatim>\<open>enumerate(self.queue)\<close>; \<open>i\<close> is the index of the
  entry under inspection and \<open>rest\<close> the entries from \<open>i\<close> on. The first match is
  replaced, the list is sorted again and the loop is left.
\<close>

fun upvote_scan :: "string \<Rightarrow> entry list \<Rightarrow> nat \<Rightarrow> entry list \<Rightarrow> bool \<times> entry list" where
  "upvote_scan song_title q i [] = (False, q)"
| "upvote_scan song_title q i (e # rest) =
     (if lower (title (fst e)) = lower song_title
      then (True, sort_desc (q[i := (fst e, snd e + 1)]))
      else upvote_scan song_title q (Suc i) rest)"

definition upvote :: "string \<Rightarrow> entry list \<Rightarrow> bool \<times> entry list" where
  "upvote song_title q = upvote_scan song_title q 0 q"

datatype party_op = Enqueue song int | Upvote string

fun party_step :: "party_op \<Rightarrow> entry list \<Rightarrow> entry list" where
  "party_step (Enqueue s priority) q = enqueue s priority q"
| "party_step (Upvote t) q = snd (upvote t q)"

text \<open>The queue after a sequence of calls, starting from the empty queue.\<close>

definition party_run :: "party_op list \<Rightarrow> entry list" where
  "party_run ops = fold party_step ops []"

text \<open>The songs enqueued by a sequence of calls, in the order of the calls.\<close>

fun enqueued :: "party_op list \<Rightarrow> song list" where
  "enqueued [] = []"
| "enqueued (Enqueue s priority # ops) = s # enqueued ops"
| "enqueued (Upvote t # ops) = enqueued ops"

definition non_increasing :: "entry list \<Rightarrow> bool" where
  "non_increasing q = sorted (map (\<lambda>x. - snd x) q)"

text \<open>The entries of one priority, in stored order.\<close>

definition with_priority :: "int \<Rightarrow> entry list \<Rightarrow> entry list" where
  "with_priority k q = filter (\<lambda>x. snd x = k) q"

text \<open>
  The songs of every priority class of \<open>q\<close> stand in the order in which the log of
  enqueue calls has them (for logs without repeated songs).
\<close>

definition keeps_insertion_order :: "song list \<Rightarrow> entry list \<Rightarrow> bool" where
  "keeps_insertion_order log q =
     (\<forall>k \<in> set (map snd q).
        map fst (with_priority k q) =
        filter (\<lambda>s. s \<in> set (map fst (with_priority k q))) log)"

subsection \<open>ListeningHistoryStack\<close>

definition push :: "song \<Rightarrow> song list \<Rightarrow> song list" where
  "push s stack = stack @ [s]"

definition search_history :: "string \<Rightarrow> song list \<Rightarrow> song list" where
  "search_history query stack =
     filter (\<lambda>s. str_in (lower query) (lower (title s)) \<or>
                 str_in (lower query) (lower (artist s))) stack"

text \<open>
  Containment up to case, as the specification words it: some contiguous block of
  \<open>s\<close> equals the query once both are lowered.
\<close>

definition contains_ci :: "string \<Rightarrow> string \<Rightarrow> bool" where
  "contains_ci query s = (\<exists>pre mid post. s = pre @ mid @ post \<and> lower mid = lower query)"

subsection \<open>MusicPlayerStacksQueues.play_song\<close>

text \<open>
  The mixer is the external capability: \<^verbatim>\<open>pygame.mixer.music.load\<close> and
  \<^verbatim>\<open>pygame.mixer.music.play\<close> either return or raise \<^verbatim>\<open>pygame.error\<close>. What they do on a
  given path is a parameter of the model.
\<close>

datatype pygame_error = Pygame_error

record mixer =
  load_ok :: "string \<Rightarrow> bool"
  play_ok :: "string \<Rightarrow> bool"

record player =
  play_next_queue :: "song list"
  party_queue :: "entry list"
  listening_history :: "song list"
  currently_playing :: "song option"

text \<open>The body of the \<^verbatim>\<open>try\<close> block: it raises, or returns the updated player.\<close>

definition play_song_try :: "mixer \<Rightarrow> song \<Rightarrow> player \<Rightarrow> pygame_error + player" where
  "play_song_try mx s st =
     (if \<not> load_ok mx (file_path s) then Inl Pygame_error
      else if \<not> play_ok mx (file_path s) then Inl Pygame_error
      else Inr (st\<lparr>currently_playing := Some s,
                    listening_history := push s (listening_history st)\<rparr>))"

text \<open>\<^verbatim>\<open>except pygame.error\<close>: the handler resets the current song and returns.\<close>

definition play_song :: "mixer \<Rightarrow> song \<Rightarrow> player \<Rightarrow> player" where
  "play_song mx s st =
     (case play_song_try mx s st of
        Inr st' \<Rightarrow> st'
      | Inl e \<Rightarrow> st\<lparr>currently_playing := None\<rparr>)"

subsection \<open>Concrete songs and states for the examples\<close>

definition song_sun :: song where "song_sun = mk_song ''Sun'' ''X''"
definition song_moon :: song where "song_moon = mk_song ''Moon'' ''Y''"
definition song_star :: song where "song_star = mk_song ''Star'' ''Z''"

definition example_queue :: "entry list" where
  "example_queue = [(song_moon, 1), (song_sun, 0)]"

definition example_calls :: "party_op list" where
  "example_calls = [Enqueue song_sun 0, Enqueue song_moon 1, Upvote ''sun'']"

definition example_history :: "song list" where
  "example_history = [song_sun, song_moon, song_star, song_sun]"

definition example_player :: player where
  "example_player = \<lparr>play_next_queue = [], party_queue = [], listening_history = [song_sun],
     currently_playing = Some song_sun\<rparr>"

definition broken_mixer :: mixer where
  "broken_mixer = \<lparr>load_ok = (\<lambda>p. False), play_ok = (\<lambda>p. True)\<rparr>"

definition working_mixer :: mixer where
  "working_mixer = \<lparr>load_ok = (\<lambda>p. True), play_ok = (\<lambda>p. True)\<rparr>"

section \<open>The linked-list playlist (linked_list_playlist.py)\<close>

subsection \<open>Nodes and the playlist object\<close>

text \<open>
  A \<^verbatim>\<open>SongNode\<close> is an object with identity; a reference to one is modelled as its
  index in the playlist's table of nodes, \<open>None\<close> being Python's \<^verbatim>\<open>None\<close>. Creating a
  node appends it to the table, so the new reference is the old length of the table.
  A node that has been unlinked stays in the table, unreferenced, as it stays on the
  Python heap until collected. The field \<^verbatim>\<open>next\<close> is called \<open>next_node\<close> and the field
  \<^verbatim>\<open>size\<close> is called \<open>size_field\<close>.
\<close>

type_synonym addr = nat

record song_node =
  song_data :: song
  next_node :: "addr option"
  previous :: "addr option"

record playlist =
  nodes :: "song_node list"
  head :: "addr option"
  tail :: "addr option"
  current_node :: "addr option"
  size_field :: int

datatype error = AttributeError | KeyError | IndexError

definition new_song_node :: "song \<Rightarrow> song_node" where
  "new_song_node sd = \<lparr>song_data = sd, next_node = None, previous = None\<rparr>"

definition new_playlist :: playlist where
  "new_playlist = \<lparr>nodes = [], head = None, tail = None, current_node = None, size_field = 0\<rparr>"

definition set_next :: "addr \<Rightarrow> addr option \<Rightarrow> song_node list \<Rightarrow> song_node list" where
  "set_next a v h = h[a := (h ! a)\<lparr>next_node := v\<rparr>]"

definition set_previous :: "addr \<Rightarrow> addr option \<Rightarrow> song_node list \<Rightarrow> song_node list" where
  "set_previous a v h = h[a := (h ! a)\<lparr>previous := v\<rparr>]"

definition is_empty :: "playlist \<Rightarrow> bool" where
  "is_empty p = (head p = None)"

definition get_size :: "playlist \<Rightarrow> int" where
  "get_size p = size_field p"

definition title_matches :: "playlist \<Rightarrow> string \<Rightarrow> addr \<Rightarrow> bool" where
  "title_matches p t a = (lower (title (song_data (nodes p ! a))) = lower t)"

subsection \<open>Adding songs\<close>

text \<open>
  \<^verbatim>\<open>add_song_at_end\<close>. In the branch for a non-empty playlist \<^verbatim>\<open>self.tail.next\<close> raises
  AttributeError when \<^verbatim>\<open>self.tail\<close> is None.
\<close>

definition add_song_at_end :: "song \<Rightarrow> playlist \<Rightarrow> error + playlist" where
  "add_song_at_end sd p =
     (let new_node = length (nodes p);
          h0 = nodes p @ [new_song_node sd]
      in if is_empty p
         then Inr (p\<lparr>nodes := h0, head := Some new_node, tail := Some new_node,
                      current_node := Some new_node, size_field := size_field p + 1\<rparr>)
         else (let h1 = set_previous new_node (tail p) h0
               in case tail p of
                    None \<Rightarrow> Inl AttributeError
                  | Some t \<Rightarrow>
                      Inr (p\<lparr>nodes := set_next t (Some new_node) h1, tail := Some new_node,
                              size_field := size_field p + 1\<rparr>)))"

definition add_song_at_beginning :: "song \<Rightarrow> playlist \<Rightarrow> playlist" where
  "add_song_at_beginning sd p =
     (let new_node = length (nodes p);
          h0 = nodes p @ [new_song_node sd]
      in case head p of
           None \<Rightarrow>
             p\<lparr>nodes := h0, head := Some new_node, tail := Some new_node,
               current_node := Some new_node, size_field := size_field p + 1\<rparr>
         | Some hd_node \<Rightarrow>
             (let h1 = set_next new_node (head p) h0
              in p\<lparr>nodes := set_previous hd_node (Some new_node) h1, head := Some new_node,
                    size_field := size_field p + 1\<rparr>))"

subsection \<open>Inserting next to a title\<close>

text \<open>The body of the match branch of \<^verbatim>\<open>insert_song_after\<close>, statement by statement.\<close>

definition splice_after :: "addr \<Rightarrow> song \<Rightarrow> playlist \<Rightarrow> playlist" where
  "splice_after current sd p =
     (let new_node = length (nodes p);
          h0 = nodes p @ [new_song_node sd];
          h1 = set_next new_node (next_node (h0 ! current)) h0;
          h2 = set_previous new_node (Some current) h1
      in case next_node (h2 ! current) of
           Some n \<Rightarrow>
             p\<lparr>nodes := set_next current (Some new_node) (set_previous n (Some new_node) h2),
               size_field := size_field p + 1\<rparr>
         | None \<Rightarrow>
             p\<lparr>nodes := set_next current (Some new_node) h2, tail := Some new_node,
               size_field := size_field p + 1\<rparr>)"

text \<open>
  The \<^verbatim>\<open>while current:\<close> loop of \<^verbatim>\<open>insert_song_after\<close>. It follows \<^verbatim>\<open>next\<close> references
  and need not end on a cyclic structure: \<open>None\<close> is a loop that never returns.
\<close>

partial_function (option) insert_after_loop ::
    "string \<Rightarrow> song \<Rightarrow> addr option \<Rightarrow> playlist \<Rightarrow> (bool \<times> playlist) option" where
  "insert_after_loop target sd current p =
     (case current of
        None \<Rightarrow> Some (False, p)
      | Some c \<Rightarrow>
          if title_matches p target c then Some (True, splice_after c sd p)
          else insert_after_loop target sd (next_node (nodes p ! c)) p)"

declare insert_after_loop.simps [code]

definition insert_song_after :: "string \<Rightarrow> song \<Rightarrow> playlist \<Rightarrow> (bool \<times> playlist) option" where
  "insert_song_after target sd p =
     (if is_empty p then Some (False, p) else insert_after_loop target sd (head p) p)"

definition splice_before :: "addr \<Rightarrow> song \<Rightarrow> playlist \<Rightarrow> playlist" where
  "splice_before current sd p =
     (let new_node = length (nodes p);
          h0 = nodes p @ [new_song_node sd];
          h1 = set_next new_node (Some current) h0;
          h2 = set_previous new_node (previous (h1 ! current)) h1
      in case previous (h2 ! current) of
           Some pv \<Rightarrow>
             p\<lparr>nodes := set_previous current (Some new_node) (set_next pv (Some new_node) h2),
               size_field := size_field p + 1\<rparr>
         | None \<Rightarrow>
             p\<lparr>nodes := set_previous current (Some new_node) h2, head := Some new_node,
               size_field := size_field p + 1\<rparr>)"

partial_function (option) insert_before_loop ::
    "string \<Rightarrow> song \<Rightarrow> addr option \<Rightarrow> playlist \<Rightarrow> (bool \<times> playlist) option" where
  "insert_before_loop target sd current p =
     (case current of
        None \<Rightarrow> Some (False, p)
      | Some c \<Rightarrow>
          if title_matches p target c then Some (True, splice_before c sd p)
          else insert_before_loop target sd (next_node (nodes p ! c)) p)"

declare insert_before_loop.simps [code]

definition insert_song_before :: "string \<Rightarrow> song \<Rightarrow> playlist \<Rightarrow> (bool \<times> playlist) option" where
  "insert_song_before target sd p =
     (if is_empty p then Some (False, p) else insert_before_loop target sd (head p) p)"

subsection \<open>Removing by title\<close>

text \<open>
  The match branch of \<^verbatim>\<open>remove_song\<close>: first the cursor is moved off the node, then the
  predecessor (or the head) and the successor (or the tail) are re-pointed, in this
  order, each statement reading the table as the statements before it left it.
\<close>

definition unlink :: "addr \<Rightarrow> playlist \<Rightarrow> playlist" where
  "unlink current p =
     (let h = nodes p;
          cur = (if current_node p = Some current
                 then (case next_node (h ! current) of
                         Some n \<Rightarrow> Some n
                       | None \<Rightarrow> previous (h ! current))
                 else current_node p);
          h1 = (case previous (h ! current) of
                  Some pv \<Rightarrow> set_next pv (next_node (h ! current)) h
                | None \<Rightarrow> h);
          hd1 = (case previous (h ! current) of
                  Some pv \<Rightarrow> head p
                | None \<Rightarrow> next_node (h ! current));
          h2 = (case next_node (h1 ! current) of
                  Some n \<Rightarrow> set_previous n (previous (h1 ! current)) h1
                | None \<Rightarrow> h1);
          tl2 = (case next_node (h1 ! current) of
                  Some n \<Rightarrow> tail p
                | None \<Rightarrow> previous (h1 ! current))
      in p\<lparr>nodes := h2, head := hd1, tail := tl2, current_node := cur,
            size_field := size_field p - 1\<rparr>)"

partial_function (option) remove_loop ::
    "string \<Rightarrow> playlist \<Rightarrow> addr option \<Rightarrow> (bool \<times> playlist) option" where
  "remove_loop song_title p current =
     (case current of
        None \<Rightarrow> Some (False, p)
      | Some c \<Rightarrow>
          if title_matches p song_title c then Some (True, unlink c p)
          else remove_loop song_title p (next_node (nodes p ! c)))"

declare remove_loop.simps [code]

definition remove_song :: "string \<Rightarrow> playlist \<Rightarrow> (bool \<times> playlist) option" where
  "remove_song song_title p =
     (if is_empty p then Some (False, p) else remove_loop song_title p (head p))"

subsection \<open>Navigation\<close>

definition next_song :: "playlist \<Rightarrow> song option \<times> playlist" where
  "next_song p =
     (case current_node p of
        None \<Rightarrow> (None, p)
      | Some c \<Rightarrow>
          (case next_node (nodes p ! c) of
             None \<Rightarrow> (None, p)
           | Some n \<Rightarrow> (Some (song_data (nodes p ! n)), p\<lparr>current_node := Some n\<rparr>)))"

definition previous_song :: "playlist \<Rightarrow> song option \<times> playlist" where
  "previous_song p =
     (case current_node p of
        None \<Rightarrow> (None, p)
      | Some c \<Rightarrow>
          (case previous (nodes p ! c) of
             None \<Rightarrow> (None, p)
           | Some n \<Rightarrow> (Some (song_data (nodes p ! n)), p\<lparr>current_node := Some n\<rparr>)))"

definition get_current_song :: "playlist \<Rightarrow> song option" where
  "get_current_song p =
     (case current_node p of None \<Rightarrow> None | Some c \<Rightarrow> Some (song_data (nodes p ! c)))"

definition go_to_first_song :: "playlist \<Rightarrow> song option \<times> playlist" where
  "go_to_first_song p =
     (case head p of
        None \<Rightarrow> (None, p)
      | Some h \<Rightarrow> (Some (song_data (nodes p ! h)), p\<lparr>current_node := Some h\<rparr>))"

text \<open>
  \<^verbatim>\<open>go_to_last_song\<close> reads \<^verbatim>\<open>self.current_node.song_data\<close> after the assignment of the
  tail, which raises AttributeError when the tail is None on a playlist with a head.
\<close>

definition go_to_last_song :: "playlist \<Rightarrow> error + (song option \<times> playlist)" where
  "go_to_last_song p =
     (if is_empty p then Inr (None, p)
      else (case tail p of
              None \<Rightarrow> Inl AttributeError
            | Some t \<Rightarrow> Inr (Some (song_data (nodes p ! t)), p\<lparr>current_node := Some t\<rparr>)))"

subsection \<open>Reversal\<close>

text \<open>
  \<^verbatim>\<open>reverse_playlist\<close>. The first loop starts at the new head (the old tail), swaps the
  two references of the node under \<^verbatim>\<open>current\<close> and goes on to \<^verbatim>\<open>current.previous\<close>, read
  after the swap. The second loop looks from the new head along \<^verbatim>\<open>next\<close> for a node
  whose song equals the song under the cursor.
\<close>

definition swap_links :: "addr \<Rightarrow> song_node list \<Rightarrow> song_node list" where
  "swap_links a h = h[a := (h ! a)\<lparr>next_node := previous (h ! a), previous := next_node (h ! a)\<rparr>]"

partial_function (option) reverse_links :: "song_node list \<Rightarrow> addr option \<Rightarrow> song_node list option" where
  "reverse_links h current =
     (case current of
        None \<Rightarrow> Some h
      | Some c \<Rightarrow> reverse_links (swap_links c h) (previous (swap_links c h ! c)))"

declare reverse_links.simps [code]

partial_function (option) relocate :: "song_node list \<Rightarrow> addr \<Rightarrow> addr option \<Rightarrow> addr option" where
  "relocate h cur temp =
     (case temp of
        None \<Rightarrow> Some cur
      | Some t \<Rightarrow>
          if song_data (h ! t) = song_data (h ! cur) then Some t
          else relocate h cur (next_node (h ! t)))"

declare relocate.simps [code]

definition reverse_playlist :: "playlist \<Rightarrow> playlist option" where
  "reverse_playlist p =
     (if size_field p \<le> 1 then Some p
      else (case reverse_links (nodes p) (tail p) of
              None \<Rightarrow> None
            | Some h \<Rightarrow>
                (case current_node p of
                   None \<Rightarrow> Some (p\<lparr>nodes := h, head := tail p, tail := head p\<rparr>)
                 | Some c \<Rightarrow>
                     (case relocate h c (tail p) of
                        None \<Rightarrow> None
                      | Some c' \<Rightarrow>
                          Some (p\<lparr>nodes := h, head := tail p, tail := head p,
                                  current_node := Some c'\<rparr>)))))"

subsection \<open>Traversals and the shape of a playlist\<close>

text \<open>
  Forward traversal as \<^verbatim>\<open>display_playlist\<close> and \<^verbatim>\<open>shuffle_playlist\<close> do it: from the head
  along \<^verbatim>\<open>next\<close>, collecting the nodes visited. Backward traversal is its mirror image,
  from the tail along \<^verbatim>\<open>previous\<close>.
\<close>

partial_function (option) walk ::
    "(song_node \<Rightarrow> addr option) \<Rightarrow> song_node list \<Rightarrow> addr option \<Rightarrow> addr list \<Rightarrow> addr list option" where
  "walk field h current visited =
     (case current of
        None \<Rightarrow> Some visited
      | Some c \<Rightarrow> walk field h (field (h ! c)) (visited @ [c]))"

declare walk.simps [code]

definition forward_nodes :: "playlist \<Rightarrow> addr list option" where
  "forward_nodes p = walk next_node (nodes p) (head p) []"

definition backward_nodes :: "playlist \<Rightarrow> addr list option" where
  "backward_nodes p = walk previous (nodes p) (tail p) []"

definition songs_at :: "playlist \<Rightarrow> addr list \<Rightarrow> song list" where
  "songs_at p as = map (\<lambda>a. song_data (nodes p ! a)) as"

definition forward_songs :: "playlist \<Rightarrow> song list option" where
  "forward_songs p = map_option (songs_at p) (forward_nodes p)"

text \<open>
  \<open>chain field h a as b\<close>: starting from reference \<open>a\<close> and following \<open>field\<close>, the nodes
  \<open>as\<close> are visited in this order and the reference found in the last of them is \<open>b\<close>.
\<close>

fun chain ::
    "(song_node \<Rightarrow> addr option) \<Rightarrow> song_node list \<Rightarrow> addr option \<Rightarrow> addr list \<Rightarrow> addr option \<Rightarrow> bool" where
  "chain field h a [] b = (a = b)"
| "chain field h a (x # xs) b = (a = Some x \<and> chain field h (field (h ! x)) xs b)"

text \<open>
  A playlist is a doubly-linked list of the nodes \<open>as\<close>: following \<^verbatim>\<open>next\<close> from the head
  visits \<open>as\<close> and ends, following \<^verbatim>\<open>previous\<close> from the tail visits them in reverse and
  ends, every reference denotes a node of the table, no node occurs twice, and the size
  field counts them.
\<close>

definition linked :: "playlist \<Rightarrow> addr list \<Rightarrow> bool" where
  "linked p as =
     (chain next_node (nodes p) (head p) as None \<and>
      chain previous (nodes p) (tail p) (rev as) None \<and>
      distinct as \<and> (\<forall>a \<in> set as. a < length (nodes p)) \<and>
      size_field p = int (length as))"

definition cursor_ok :: "playlist \<Rightarrow> addr list \<Rightarrow> bool" where
  "cursor_ok p as = (case current_node p of None \<Rightarrow> as = [] | Some c \<Rightarrow> c \<in> set as)"

definition well_formed :: "playlist \<Rightarrow> addr list \<Rightarrow> bool" where
  "well_formed p as = (linked p as \<and> cursor_ok p as)"

text \<open>A node is reachable from a reference along \<^verbatim>\<open>next\<close>.\<close>

inductive reachable :: "song_node list \<Rightarrow> addr option \<Rightarrow> addr \<Rightarrow> bool" where
  here: "reachable h (Some a) a"
| step: "reachable h (next_node (h ! a)) b \<Longrightarrow> reachable h (Some a) b"

subsection \<open>Shuffling\<close>

text \<open>
  \<^verbatim>\<open>shuffle_playlist\<close>. The songs are collected by a forward traversal, \<open>2 * size\<close>
  pairs of indices are drawn with \<^verbatim>\<open>random.randint(0, self.size - 1)\<close> and the songs at
  two different indices are exchanged, then head, tail and size are reset and the songs
  are added at the end one by one; last the cursor is set to the head. The random
  generator is a parameter: \<open>raw\<close> lists the raw values behind the successive pairs of
  draws (a pair of zeros once the list is used up), and a draw is the raw value modulo
  the size, which covers exactly the range of \<^verbatim>\<open>randint\<close>. Reading \<^verbatim>\<open>songs[i]\<close> outside
  the list raises IndexError.
\<close>

definition draws :: "(nat \<times> nat) list \<Rightarrow> nat \<Rightarrow> (nat \<times> nat) list" where
  "draws raw n =
     map (\<lambda>k. if k < length raw then (fst (raw ! k) mod n, snd (raw ! k) mod n) else (0, 0))
       [0..<2 * n]"

fun swap_pairs :: "(nat \<times> nat) list \<Rightarrow> song list \<Rightarrow> error + song list" where
  "swap_pairs [] songs = Inr songs"
| "swap_pairs (d # ds) songs =
     (if fst d \<noteq> snd d
      then (if fst d < length songs \<and> snd d < length songs
            then swap_pairs ds (songs[fst d := songs ! snd d, snd d := songs ! fst d])
            else Inl IndexError)
      else swap_pairs ds songs)"

fun add_songs :: "song list \<Rightarrow> playlist \<Rightarrow> error + playlist" where
  "add_songs [] p = Inr p"
| "add_songs (s # ss) p =
     (case add_song_at_end s p of Inl e \<Rightarrow> Inl e | Inr p' \<Rightarrow> add_songs ss p')"

definition shuffle_playlist :: "(nat \<times> nat) list \<Rightarrow> playlist \<Rightarrow> (error + playlist) option" where
  "shuffle_playlist raw p =
     (if size_field p \<le> 1 then Some (Inr p)
      else (case walk next_node (nodes p) (head p) [] of
              None \<Rightarrow> None
            | Some visited \<Rightarrow>
                (case swap_pairs (draws raw (nat (size_field p))) (songs_at p visited) of
                   Inl e \<Rightarrow> Some (Inl e)
                 | Inr songs \<Rightarrow>
                     (case add_songs songs (p\<lparr>head := None, tail := None, size_field := 0\<rparr>) of
                        Inl e \<Rightarrow> Some (Inl e)
                      | Inr p' \<Rightarrow> Some (Inr (p'\<lparr>current_node := head p'\<rparr>))))))"

subsection \<open>Sequences of calls\<close>

datatype command =
    Add_at_end song
  | Add_at_beginning song
  | Insert_after string song
  | Insert_before string song
  | Remove string
  | Next_song
  | Previous_song
  | Go_to_first
  | Go_to_last
  | Reverse
  | Shuffle "(nat \<times> nat) list"

text \<open>
  One call on a playlist: the playlist it leaves, or \<open>None\<close> when the call raises or
  never returns.
\<close>

fun perform :: "command \<Rightarrow> playlist \<Rightarrow> playlist option" where
  "perform (Add_at_end sd) p = (case add_song_at_end sd p of Inl e \<Rightarrow> None | Inr p' \<Rightarrow> Some p')"
| "perform (Add_at_beginning sd) p = Some (add_song_at_beginning sd p)"
| "perform (Insert_after t sd) p = map_option snd (insert_song_after t sd p)"
| "perform (Insert_before t sd) p = map_option snd (insert_song_before t sd p)"
| "perform (Remove t) p = map_option snd (remove_song t p)"
| "perform Next_song p = Some (snd (next_song p))"
| "perform Previous_song p = Some (snd (previous_song p))"
| "perform Go_to_first p = Some (snd (go_to_first_song p))"
| "perform Go_to_last p = (case go_to_last_song p of Inl e \<Rightarrow> None | Inr r \<Rightarrow> Some (snd r))"
| "perform Reverse p = reverse_playlist p"
| "perform (Shuffle raw) p =
     (case shuffle_playlist raw p of Some (Inr p') \<Rightarrow> Some p' | _ \<Rightarrow> None)"

fun perform_all :: "command list \<Rightarrow> playlist \<Rightarrow> playlist option" where
  "perform_all [] p = Some p"
| "perform_all (c # cs) p = (case perform c p of None \<Rightarrow> None | Some p' \<Rightarrow> perform_all cs p')"

fun is_edit :: "command \<Rightarrow> bool" where
  "is_edit (Add_at_end sd) = True"
| "is_edit (Add_at_beginning sd) = True"
| "is_edit (Insert_after t sd) = True"
| "is_edit (Insert_before t sd) = True"
| "is_edit (Remove t) = True"
| "is_edit c = False"

subsection \<open>A concrete playlist\<close>

text \<open>
  The playlist of the specification's scenario: Sun, Moon and Star added at the end,
  then \<^verbatim>\<open>go_to_first_song\<close> and \<^verbatim>\<open>next_song\<close>, which leave the cursor on Moon.
\<close>

definition song_dawn :: song where "song_dawn = mk_song ''Dawn'' ''W''"

definition road_trip_calls :: "command list" where
  "road_trip_calls =
     [Add_at_end song_sun, Add_at_end song_moon, Add_at_end song_star, Go_to_first, Next_song]"

definition road_trip :: playlist where
  "road_trip =
     \<lparr>nodes = [\<lparr>song_data = song_sun, next_node = Some 1, previous = None\<rparr>,
               \<lparr>song_data = song_moon, next_node = Some 2, previous = Some 0\<rparr>,
               \<lparr>song_data = song_star, next_node = None, previous = Some 1\<rparr>],
      head = Some 0, tail = Some 2, current_node = Some 1, size_field = 3\<rparr>"

definition edit_calls :: "command list" where
  "edit_calls = [Add_at_end song_moon, Add_at_beginning song_sun, Insert_after ''MOON'' song_star,
     Insert_before ''star'' song_dawn, Remove ''Moon'', Remove ''absent'']"


text \<open>
  Three songs added at the end of a new playlist: the cursor stays on the first one.
  \<open>road_trip_reversed\<close> is what \<^verbatim>\<open>reverse_playlist\<close> leaves of the scenario playlist,
  where the cursor is on Moon.
\<close>

definition three_songs_calls :: "command list" where
  "three_songs_calls = [Add_at_end song_sun, Add_at_end song_moon, Add_at_end song_star]"

definition three_songs :: playlist where
  "three_songs = road_trip\<lparr>current_node := Some 0\<rparr>"

definition road_trip_reversed :: playlist where
  "road_trip_reversed =
     \<lparr>nodes = [\<lparr>song_data = song_sun, next_node = Some 1, previous = None\<rparr>,
               \<lparr>song_data = song_moon, next_node = Some 2, previous = Some 0\<rparr>,
               \<lparr>song_data = song_star, next_node = Some 1, previous = None\<rparr>],
      head = Some 2, tail = Some 0, current_node = Some 1, size_field = 3\<rparr>"

definition lost_cursor_calls :: "command list" where
  "lost_cursor_calls = road_trip_calls @ [Reverse, Previous_song]"

definition lost_cursor :: playlist where
  "lost_cursor = road_trip_reversed\<lparr>current_node := Some 0\<rparr>"


section \<open>The playlist manager (PlaylistManager in linked_list_playlist.py)\<close>

text \<open>
  \<^verbatim>\<open>self.playlists\<close> is a dictionary from names to playlist objects and
  \<^verbatim>\<open>self.current_playlist_name\<close> a name or None; the manager has no other attribute.
  \<^verbatim>\<open>create_playlist\<close> prints the description it is given; printing is not part of the
  state.
\<close>

record playlist_manager =
  playlists :: "string \<rightharpoonup> playlist"
  current_playlist_name :: "string option"

definition new_manager :: playlist_manager where
  "new_manager = \<lparr>playlists = Map.empty, current_playlist_name = None\<rparr>"

definition create_playlist ::
    "string \<Rightarrow> string \<Rightarrow> playlist_manager \<Rightarrow> bool \<times> playlist_manager" where
  "create_playlist name description m =
     (if name \<in> dom (playlists m) then (False, m)
      else (True, m\<lparr>playlists := (playlists m)(name \<mapsto> new_playlist),
                     current_playlist_name := Some name\<rparr>))"

text \<open>
  \<^verbatim>\<open>song_library[:max_songs]\<close>: the first \<open>max_songs\<close> elements, and for a negative bound
  all but the last \<open>- max_songs\<close>.
\<close>

definition slice_to :: "int \<Rightarrow> 'a list \<Rightarrow> 'a list" where
  "slice_to n xs = (if 0 \<le> n then take (nat n) xs else take (nat (int (length xs) + n)) xs)"

text \<open>
  \<^verbatim>\<open>create_playlist_from_library\<close>; \<open>song_library\<close> is what
  \<^verbatim>\<open>music_manager.get_song_library()\<close> returns. The playlist filled is the object stored
  under \<open>name\<close> by the call of \<^verbatim>\<open>create_playlist\<close> just before; the loop over
  \<^verbatim>\<open>songs_to_add\<close> is \<open>add_songs\<close>.
\<close>

definition create_playlist_from_library ::
    "string \<Rightarrow> song list \<Rightarrow> int \<Rightarrow> string \<Rightarrow> playlist_manager \<Rightarrow>
     error + (bool \<times> playlist_manager)" where
  "create_playlist_from_library name song_library max_songs description m =
     (case create_playlist name description m of
        (False, m') \<Rightarrow> Inr (False, m')
      | (True, m') \<Rightarrow>
          if song_library = [] then Inr (False, m')
          else (case playlists m' name of
                  None \<Rightarrow> Inl KeyError
                | Some current_playlist \<Rightarrow>
                    (case add_songs (slice_to max_songs song_library) current_playlist of
                       Inl e \<Rightarrow> Inl e
                     | Inr p \<Rightarrow> Inr (True, m'\<lparr>playlists := (playlists m')(name \<mapsto> p)\<rparr>))))"

definition example_manager :: playlist_manager where
  "example_manager =
     \<lparr>playlists = [''Road Trip'' \<mapsto> road_trip], current_playlist_name = Some ''Road Trip''\<rparr>"

section \<open>The party queue\<close>

lemma non_increasing_sort_desc: "non_increasing (sort_desc q)"
  by (simp add: non_increasing_def sort_desc_def)

lemma with_priority_sort_desc: "with_priority k (sort_desc q) = with_priority k q"
proof -
  have "filter (\<lambda>x. - snd x = - k) (sort_key (\<lambda>x. - snd x) q) = filter (\<lambda>x. - snd x = - k) q"
    by (rule sort_key_stable)
  then show ?thesis by (simp add: with_priority_def sort_desc_def)
qed

lemma upvote_scan_sorted:
  "non_increasing q \<Longrightarrow> non_increasing (snd (upvote_scan t q i rest))"
  by (induction rest arbitrary: i) (simp_all add: non_increasing_sort_desc)

lemma party_step_sorted: "non_increasing q \<Longrightarrow> non_increasing (party_step c q)"
  by (cases c) (simp_all add: enqueue_def non_increasing_sort_desc upvote_def upvote_scan_sorted)

lemma fold_party_sorted: "non_increasing q \<Longrightarrow> non_increasing (fold party_step ops q)"
  by (induction ops arbitrary: q) (simp_all add: party_step_sorted)

lemma party_run_sorted: "non_increasing (party_run ops)"
proof -
  have "non_increasing []" by (simp add: non_increasing_def)
  then show ?thesis unfolding party_run_def by (rule fold_party_sorted)
qed

lemma upvote_scan_hit:
  "upvote_scan t (pre @ rest) (length pre) rest = (True, q') \<Longrightarrow>
   \<exists>j. length pre \<le> j \<and> j < length (pre @ rest) \<and>
       lower (title (fst ((pre @ rest) ! j))) = lower t \<and>
       (\<forall>m. length pre \<le> m \<and> m < j \<longrightarrow> lower (title (fst ((pre @ rest) ! m))) \<noteq> lower t) \<and>
       q' = sort_desc ((pre @ rest)[j := (fst ((pre @ rest) ! j), snd ((pre @ rest) ! j) + 1)])"
proof (induction rest arbitrary: pre)
  case Nil
  then show ?case by simp
next
  case (Cons e rest)
  show ?case
  proof (cases "lower (title (fst e)) = lower t")
    case True
    with Cons.prems have "q' = sort_desc ((pre @ e # rest)[length pre := (fst e, snd e + 1)])"
      by simp
    with True show ?thesis
      by (intro exI[of _ "length pre"]) auto
  next
    case False
    with Cons.prems have "upvote_scan t ((pre @ [e]) @ rest) (length (pre @ [e])) rest = (True, q')"
      by simp
    from Cons.IH[OF this] obtain j where j: "Suc (length pre) \<le> j" "j < length (pre @ e # rest)"
      "lower (title (fst ((pre @ e # rest) ! j))) = lower t"
      "\<forall>m. Suc (length pre) \<le> m \<and> m < j \<longrightarrow> lower (title (fst ((pre @ e # rest) ! m))) \<noteq> lower t"
      "q' = sort_desc ((pre @ e # rest)[j := (fst ((pre @ e # rest) ! j), snd ((pre @ e # rest) ! j) + 1)])"
      by auto
    have "\<forall>m. length pre \<le> m \<and> m < j \<longrightarrow> lower (title (fst ((pre @ e # rest) ! m))) \<noteq> lower t"
    proof (intro allI impI)
      fix m assume m: "length pre \<le> m \<and> m < j"
      show "lower (title (fst ((pre @ e # rest) ! m))) \<noteq> lower t"
      proof (cases "m = length pre")
        case True
        then show ?thesis using False by simp
      next
        case False
        with m j(4) show ?thesis by simp
      qed
    qed
    with j show ?thesis by (intro exI[of _ j]) simp
  qed
qed

lemma upvote_scan_miss:
  "upvote_scan t q i rest = (False, q') \<Longrightarrow>
   q' = q \<and> (\<forall>e \<in> set rest. lower (title (fst e)) \<noteq> lower t)"
  by (induction rest arbitrary: i) (auto split: if_splits)

lemma upvote_hit:
  assumes "upvote t q = (True, q')"
  shows "\<exists>j<length q. lower (title (fst (q ! j))) = lower t \<and>
       (\<forall>m<j. lower (title (fst (q ! m))) \<noteq> lower t) \<and>
       q' = sort_desc (q[j := (fst (q ! j), snd (q ! j) + 1)])"
  using upvote_scan_hit[of t "[]" q q'] assms by (auto simp: upvote_def)

lemma upvote_miss:
  "upvote t q = (False, q') \<Longrightarrow> q' = q \<and> (\<forall>e \<in> set q. lower (title (fst e)) \<noteq> lower t)"
  unfolding upvote_def by (rule upvote_scan_miss)

lemma with_priority_append: "with_priority k (xs @ ys) = with_priority k xs @ with_priority k ys"
  by (simp add: with_priority_def)

lemma fold_enqueue_classes:
  "with_priority k (fold party_step (map (\<lambda>e. Enqueue (fst e) (snd e)) es) q) =
   with_priority k q @ with_priority k es"
proof (induction es arbitrary: q)
  case Nil
  then show ?case by (simp add: with_priority_def)
next
  case (Cons e es)
  have "with_priority k (enqueue (fst e) (snd e) q) = with_priority k q @ with_priority k [e]"
    by (simp add: enqueue_def with_priority_sort_desc with_priority_append)
  with Cons.IH[of "enqueue (fst e) (snd e) q"] show ?case
    by (simp add: with_priority_def)
qed

text \<open>
  Claim C1, as amended. After every sequence of enqueue and upvote calls from the empty
  queue the stored sequence is non-increasing by priority. Every re-sort is stable with
  respect to the sequence it sorts: the entries of one priority keep the order they had
  in the stored list, with a new entry appended (enqueue) or with the first entry whose
  title matches up to case raised by one in place (upvote); a failed upvote changes
  nothing. For runs of enqueue calls alone that order is the order of insertion.
\<close>

theorem party_queue_sorted_and_stable:
  "non_increasing (party_run ops) \<and>
   with_priority k (enqueue s p q) = with_priority k (q @ [(s, p)]) \<and>
   (upvote t q = (True, q') \<longrightarrow>
      (\<exists>j<length q. lower (title (fst (q ! j))) = lower t \<and>
         (\<forall>m<j. lower (title (fst (q ! m))) \<noteq> lower t) \<and>
         with_priority k q' = with_priority k (q[j := (fst (q ! j), snd (q ! j) + 1)]))) \<and>
   (upvote t q = (False, q') \<longrightarrow>
      q' = q \<and> (\<forall>e \<in> set q. lower (title (fst e)) \<noteq> lower t)) \<and>
   with_priority k (party_run (map (\<lambda>e. Enqueue (fst e) (snd e)) es)) = with_priority k es"
proof (intro conjI impI)
  show "non_increasing (party_run ops)" by (rule party_run_sorted)
  show "with_priority k (enqueue s p q) = with_priority k (q @ [(s, p)])"
    by (simp add: enqueue_def with_priority_sort_desc)
  show "with_priority k (party_run (map (\<lambda>e. Enqueue (fst e) (snd e)) es)) = with_priority k es"
    using fold_enqueue_classes[of k es "[]"] by (simp add: party_run_def with_priority_def)
next
  assume "upvote t q = (True, q')"
  from upvote_hit[OF this] show "\<exists>j<length q. lower (title (fst (q ! j))) = lower t \<and>
         (\<forall>m<j. lower (title (fst (q ! m))) \<noteq> lower t) \<and>
         with_priority k q' = with_priority k (q[j := (fst (q ! j), snd (q ! j) + 1)])"
    by (auto simp: with_priority_sort_desc)
next
  assume a: "upvote t q = (False, q')"
  from upvote_miss[OF a] show "q' = q" by simp
  from upvote_miss[OF a] show "\<forall>e \<in> set q. lower (title (fst e)) \<noteq> lower t" by simp
qed



text \<open>
  Claim C1 as stated fails: enqueue Sun at priority 0, enqueue Moon at priority 1, upvote
  Sun. Both entries now have priority 1 and Moon is stored first, although Sun was
  enqueued first.
\<close>

theorem party_queue_insertion_order_counterexample:
  "party_run example_calls = [(song_moon, 1), (song_sun, 1)] \<and>
   enqueued example_calls = [song_sun, song_moon] \<and>
   \<not> keeps_insertion_order (enqueued example_calls) (party_run example_calls)"
  by code_simp

text \<open>The amended claim C1 at a concrete queue, for a successful and a failed upvote.\<close>

theorem party_queue_sorted_and_stable_witness:
  "upvote ''SUN'' example_queue = (True, [(song_moon, 1), (song_sun, 1)]) \<and>
   upvote ''star'' example_queue = (False, example_queue) \<and>
   non_increasing (party_run example_calls) \<and>
   (\<exists>j<length example_queue. lower (title (fst (example_queue ! j))) = lower ''SUN'') \<and>
   lower (title (fst (example_queue ! 0))) \<noteq> lower ''star''"
proof -
  have h1: "upvote ''SUN'' example_queue = (True, [(song_moon, 1), (song_sun, 1)])"
    by code_simp
  have h2: "upvote ''star'' example_queue = (False, example_queue)"
    by code_simp
  note t1 = party_queue_sorted_and_stable[of example_calls
      1 song_sun 0 example_queue "''SUN''" "[(song_moon, 1), (song_sun, 1)]" "[]"]
  note t2 = party_queue_sorted_and_stable[of example_calls 1 song_sun 0
      example_queue "''star''" example_queue "[]"]
  from t1 have s: "non_increasing (party_run example_calls)"
    by (rule conjunct1)
  from t1 h1 have a: "\<exists>j<length example_queue. lower (title (fst (example_queue ! j))) = lower ''SUN''"
    by blast
  from t2 h2 have b: "\<forall>e \<in> set example_queue. lower (title (fst e)) \<noteq> lower ''star''"
    by blast
  have "example_queue ! 0 \<in> set example_queue" by (simp add: example_queue_def)
  with b have c: "lower (title (fst (example_queue ! 0))) \<noteq> lower ''star''" by blast
  from h1 h2 s a c show ?thesis by (intro conjI)
qed

section \<open>History search and the player\<close>

lemma starts_with_iff: "starts_with q s \<longleftrightarrow> (\<exists>post. s = q @ post)"
  by (induction q s rule: starts_with.induct) auto

lemma str_in_iff: "str_in q s \<longleftrightarrow> (\<exists>pre post. s = pre @ q @ post)"
proof (induction s)
  case Nil
  then show ?case by auto
next
  case (Cons c s)
  show ?case
  proof
    assume "str_in q (c # s)"
    then consider "starts_with q (c # s)" | "str_in q s" by auto
    then show "\<exists>pre post. c # s = pre @ q @ post"
    proof cases
      case 1
      then obtain post where "c # s = q @ post" by (auto simp: starts_with_iff)
      then have "c # s = [] @ q @ post" by simp
      then show ?thesis by blast
    next
      case 2
      with Cons.IH obtain pre post where "s = pre @ q @ post" by auto
      then have "c # s = (c # pre) @ q @ post" by simp
      then show ?thesis by blast
    qed
  next
    assume "\<exists>pre post. c # s = pre @ q @ post"
    then obtain pre post where e: "c # s = pre @ q @ post" by auto
    show "str_in q (c # s)"
    proof (cases pre)
      case Nil
      with e have "starts_with q (c # s)" by (auto simp: starts_with_iff)
      then show ?thesis by simp
    next
      case (Cons d pre')
      with e have "s = pre' @ q @ post" by simp
      with Cons.IH have "str_in q s" by blast
      then show ?thesis by simp
    qed
  qed
qed

lemma str_in_lower_iff: "str_in (lower q) (lower s) \<longleftrightarrow> contains_ci q s"
proof
  assume "str_in (lower q) (lower s)"
  then obtain pre post where "map lower_char s = pre @ map lower_char q @ post"
    by (auto simp: str_in_iff lower_def)
  then obtain us vs where s: "s = us @ vs" and "pre = map lower_char us"
      and "map lower_char q @ post = map lower_char vs"
    by (auto simp: map_eq_append_conv)
  from this(3)[symmetric] obtain ws xs where "vs = ws @ xs" and "map lower_char q = map lower_char ws"
    by (auto simp: map_eq_append_conv)
  with s have "s = us @ ws @ xs \<and> lower ws = lower q" by (simp add: lower_def)
  then show "contains_ci q s" unfolding contains_ci_def by blast
next
  assume "contains_ci q s"
  then obtain pre mid post where "s = pre @ mid @ post" and "lower mid = lower q"
    unfolding contains_ci_def by blast
  then have "lower s = lower pre @ lower q @ lower post" by (simp add: lower_def)
  then show "str_in (lower q) (lower s)" unfolding str_in_iff by blast
qed

text \<open>
  Claim C8. The result of a history search is exactly the entries whose title or artist
  contains the query up to case, in storage order (oldest first); two queries that agree
  up to case give the same result, in particular ABC and abc.
\<close>

theorem search_history_case_insensitive:
  "search_history query stack =
     filter (\<lambda>s. contains_ci query (title s) \<or> contains_ci query (artist s)) stack \<and>
   (lower q1 = lower q2 \<longrightarrow> search_history q1 stack = search_history q2 stack) \<and>
   search_history ''ABC'' stack = search_history ''abc'' stack"
proof -
  have l: "lower ''ABC'' = lower ''abc''" by code_simp
  show ?thesis by (simp add: search_history_def str_in_lower_iff l)
qed

text \<open>Claim C8 at a concrete history with a repeated song.\<close>

theorem search_history_case_insensitive_witness:
  "lower ''sUn'' = lower ''SUN'' \<and>
   search_history ''sUn'' example_history = search_history ''SUN'' example_history \<and>
   search_history ''sUn'' example_history = [song_sun, song_sun]"
proof -
  have l: "lower ''sUn'' = lower ''SUN''" by code_simp
  have v: "search_history ''sUn'' example_history = [song_sun, song_sun]" by code_simp
  from search_history_case_insensitive[of "''sUn''" example_history "''sUn''" "''SUN''"] l
  have "search_history ''sUn'' example_history = search_history ''SUN'' example_history"
    by blast
  with l v show ?thesis by (intro conjI)
qed

text \<open>
  Claim C5. When loading or starting the song raises the mixer's error, the handler sets
  the current song to none, the history and the queues stay as they were, and the call
  returns a player state (nothing is raised); when both succeed, the song becomes the
  current song and is pushed onto the history.
\<close>

theorem play_song_outcome:
  "(play_song_try mx s st = Inl e \<longrightarrow>
      play_song mx s st = st\<lparr>currently_playing := None\<rparr> \<and>
      listening_history (play_song mx s st) = listening_history st) \<and>
   (play_song_try mx s st = Inl e \<longleftrightarrow> \<not> (load_ok mx (file_path s) \<and> play_ok mx (file_path s))) \<and>
   (load_ok mx (file_path s) \<and> play_ok mx (file_path s) \<longrightarrow>
      play_song mx s st =
        st\<lparr>currently_playing := Some s, listening_history := listening_history st @ [s]\<rparr>)"
  by (cases e) (auto simp: play_song_def play_song_try_def push_def)

text \<open>Claim C5 with a mixer that rejects every file and one that accepts every file.\<close>

theorem play_song_outcome_witness:
  "play_song_try broken_mixer song_moon example_player = Inl Pygame_error \<and>
   currently_playing (play_song broken_mixer song_moon example_player) = None \<and>
   listening_history (play_song broken_mixer song_moon example_player) = [song_sun] \<and>
   load_ok working_mixer (file_path song_moon) \<and> play_ok working_mixer (file_path song_moon) \<and>
   currently_playing (play_song working_mixer song_moon example_player) = Some song_moon \<and>
   listening_history (play_song working_mixer song_moon example_player) = [song_sun, song_moon]"
proof -
  have h1: "play_song_try broken_mixer song_moon example_player = Inl Pygame_error"
    by (simp add: play_song_try_def broken_mixer_def)
  have h2: "load_ok working_mixer (file_path song_moon) \<and> play_ok working_mixer (file_path song_moon)"
    by (simp add: working_mixer_def)
  note t1 = play_song_outcome[of broken_mixer song_moon example_player Pygame_error]
  note t2 = play_song_outcome[of working_mixer song_moon example_player Pygame_error]
  from t1 h1 have a: "play_song broken_mixer song_moon example_player = example_player\<lparr>currently_playing := None\<rparr>"
    by blast
  from t2 h2 have b: "play_song working_mixer song_moon example_player =
        example_player\<lparr>currently_playing := Some song_moon,
           listening_history := listening_history example_player @ [song_moon]\<rparr>"
    by blast
  show ?thesis using h1 h2 by (simp add: a b) (simp add: example_player_def)
qed

section \<open>Well-formed playlists under the operations\<close>

subsection \<open>The table of nodes under updates\<close>

lemma length_set_next [simp]: "length (set_next a v h) = length h"
  by (simp add: set_next_def)

lemma length_set_previous [simp]: "length (set_previous a v h) = length h"
  by (simp add: set_previous_def)

lemma length_swap_links [simp]: "length (swap_links a h) = length h"
  by (simp add: swap_links_def)

lemma nth_update_total:
  "(h[a := x]) ! b = (if b = a \<and> a < length h then x else h ! b)"
  by (cases "a < length h") (simp_all add: nth_list_update list_update_beyond)

lemma next_node_set_next [simp]:
  "next_node (set_next a v h ! b) = (if b = a \<and> a < length h then v else next_node (h ! b))"
  by (simp add: set_next_def nth_update_total)

lemma previous_set_next [simp]: "previous (set_next a v h ! b) = previous (h ! b)"
  by (simp add: set_next_def nth_update_total)

lemma song_data_set_next [simp]: "song_data (set_next a v h ! b) = song_data (h ! b)"
  by (simp add: set_next_def nth_update_total)

lemma previous_set_previous [simp]:
  "previous (set_previous a v h ! b) = (if b = a \<and> a < length h then v else previous (h ! b))"
  by (simp add: set_previous_def nth_update_total)

lemma next_node_set_previous [simp]: "next_node (set_previous a v h ! b) = next_node (h ! b)"
  by (simp add: set_previous_def nth_update_total)

lemma song_data_set_previous [simp]: "song_data (set_previous a v h ! b) = song_data (h ! b)"
  by (simp add: set_previous_def nth_update_total)

lemma new_song_node_simps [simp]:
  "song_data (new_song_node sd) = sd" "next_node (new_song_node sd) = None"
  "previous (new_song_node sd) = None"
  by (simp_all add: new_song_node_def)

subsection \<open>Chains\<close>

lemma chain_append:
  "chain f h a (xs @ ys) b = (\<exists>m. chain f h a xs m \<and> chain f h m ys b)"
  by (induction xs arbitrary: a) auto

lemma chain_snoc [simp]:
  "chain f h a (xs @ [x]) b = (chain f h a xs (Some x) \<and> f (h ! x) = b)"
  by (induction xs arbitrary: a) auto

lemma chain_append_Cons [simp]:
  "chain f h a (xs @ y # ys) b = (chain f h a xs (Some y) \<and> chain f h (f (h ! y)) ys b)"
  by (induction xs arbitrary: a) auto

lemma chain_frame:
  "\<forall>x \<in> set xs. f (h' ! x) = f (h ! x) \<Longrightarrow> chain f h' a xs b = chain f h a xs b"
  by (induction xs arbitrary: a) auto

lemma chain_grow [simp]:
  "\<forall>x \<in> set xs. x < length h \<Longrightarrow> chain f (h @ [n]) a xs b = chain f h a xs b"
  by (rule chain_frame) (auto simp: nth_append)

lemma chain_next_set_next [simp]:
  "a \<notin> set xs \<Longrightarrow> chain next_node (set_next a v h) s xs b = chain next_node h s xs b"
  by (rule chain_frame) auto

lemma chain_previous_set_previous [simp]:
  "a \<notin> set xs \<Longrightarrow> chain previous (set_previous a v h) s xs b = chain previous h s xs b"
  by (rule chain_frame) auto

lemma chain_next_set_previous [simp]:
  "chain next_node (set_previous a v h) s xs b = chain next_node h s xs b"
  by (rule chain_frame) auto

lemma chain_previous_set_next [simp]:
  "chain previous (set_next a v h) s xs b = chain previous h s xs b"
  by (rule chain_frame) auto

lemma chain_start: "chain f h a xs b \<Longrightarrow> xs \<noteq> [] \<Longrightarrow> a = Some (hd xs)"
  by (cases xs) auto

lemma walk_chain: "chain f h a xs None \<Longrightarrow> walk f h a acc = Some (acc @ xs)"
proof (induction xs arbitrary: a acc)
  case Nil
  then show ?case by (simp add: walk.simps)
next
  case (Cons x xs)
  then have "walk f h (f (h ! x)) (acc @ [x]) = Some ((acc @ [x]) @ xs)" by simp
  with Cons.prems show ?case by (subst walk.simps) simp
qed

subsection \<open>Shape facts\<close>

lemma linked_head: "linked p as \<Longrightarrow> head p = (case as of [] \<Rightarrow> None | a # _ \<Rightarrow> Some a)"
  by (cases as) (auto simp: linked_def)

lemma linked_tail: "linked p as \<Longrightarrow> tail p = (if as = [] then None else Some (last as))"
  by (cases as rule: rev_cases) (auto simp: linked_def)

lemma linked_forward: "linked p as \<Longrightarrow> forward_nodes p = Some as"
  using walk_chain[of next_node "nodes p" "head p" as "[]"]
  by (simp add: linked_def forward_nodes_def)

lemma linked_backward: "linked p as \<Longrightarrow> backward_nodes p = Some (rev as)"
  using walk_chain[of previous "nodes p" "tail p" "rev as" "[]"]
  by (simp add: linked_def backward_nodes_def)

subsection \<open>add_song_at_end\<close>

lemma add_song_at_end_linked:
  assumes "linked p as"
  shows "\<exists>p'. add_song_at_end sd p = Inr p' \<and> linked p' (as @ [length (nodes p)]) \<and>
           current_node p' = (if as = [] then Some (length (nodes p)) else current_node p) \<and>
           songs_at p' (as @ [length (nodes p)]) = songs_at p as @ [sd] \<and>
           length (nodes p') = Suc (length (nodes p))"
proof (cases as rule: rev_cases)
  case Nil
  with assms show ?thesis
    by (simp add: linked_def add_song_at_end_def is_empty_def Let_def songs_at_def)
next
  case (snoc bs t)
  with assms have t: "tail p = Some t" "head p \<noteq> None" "t < length (nodes p)"
    using linked_head[OF assms] linked_tail[OF assms] by (auto simp: linked_def split: list.splits)
  from assms snoc have "length (nodes p) \<notin> set as"
    by (auto simp: linked_def)
  with assms snoc t show ?thesis
    by (auto simp: linked_def add_song_at_end_def is_empty_def Let_def songs_at_def
        nth_append)
qed

subsection \<open>add_song_at_beginning\<close>

lemma add_song_at_beginning_linked:
  assumes "linked p as"
  shows "linked (add_song_at_beginning sd p) (length (nodes p) # as) \<and>
         current_node (add_song_at_beginning sd p) =
           (if as = [] then Some (length (nodes p)) else current_node p) \<and>
         songs_at (add_song_at_beginning sd p) (length (nodes p) # as) = sd # songs_at p as \<and>
         length (nodes (add_song_at_beginning sd p)) = Suc (length (nodes p))"
proof (cases as)
  case Nil
  with assms show ?thesis
    by (simp add: linked_def add_song_at_beginning_def Let_def songs_at_def)
next
  case (Cons a bs)
  from assms have "length (nodes p) \<notin> set as"
    by (auto simp: linked_def)
  with assms Cons show ?thesis
    by (auto simp: linked_def add_song_at_beginning_def Let_def songs_at_def nth_append)
qed

subsection \<open>The scan loops\<close>

lemma insert_after_loop_chain:
  "chain next_node (nodes p) a xs None \<Longrightarrow>
   insert_after_loop t sd a p =
     (case find (title_matches p t) xs of
        None \<Rightarrow> Some (False, p)
      | Some c \<Rightarrow> Some (True, splice_after c sd p))"
proof (induction xs arbitrary: a)
  case Nil
  then show ?case by (simp add: insert_after_loop.simps)
next
  case (Cons x xs)
  then show ?case by (subst insert_after_loop.simps) simp
qed

lemma insert_before_loop_chain:
  "chain next_node (nodes p) a xs None \<Longrightarrow>
   insert_before_loop t sd a p =
     (case find (title_matches p t) xs of
        None \<Rightarrow> Some (False, p)
      | Some c \<Rightarrow> Some (True, splice_before c sd p))"
proof (induction xs arbitrary: a)
  case Nil
  then show ?case by (simp add: insert_before_loop.simps)
next
  case (Cons x xs)
  then show ?case by (subst insert_before_loop.simps) simp
qed

lemma remove_loop_chain:
  "chain next_node (nodes p) a xs None \<Longrightarrow>
   remove_loop t p a =
     (case find (title_matches p t) xs of
        None \<Rightarrow> Some (False, p)
      | Some c \<Rightarrow> Some (True, unlink c p))"
proof (induction xs arbitrary: a)
  case Nil
  then show ?case by (simp add: remove_loop.simps)
next
  case (Cons x xs)
  then show ?case by (subst remove_loop.simps) simp
qed

lemma find_first_match:
  "\<forall>a \<in> set xs. \<not> P a \<Longrightarrow> P c \<Longrightarrow> find P (xs @ c # ys) = Some c"
  by (induction xs) auto

lemma find_no_match: "\<forall>a \<in> set xs. \<not> P a \<Longrightarrow> find P xs = None"
  by (induction xs) auto

lemma first_match_split:
  "\<exists>a \<in> set as. P a \<Longrightarrow> \<exists>xs c ys. as = xs @ c # ys \<and> (\<forall>a \<in> set xs. \<not> P a) \<and> P c"
  using split_list_first_prop[of as P] by blast

subsection \<open>Splicing and unlinking\<close>

lemma splice_after_linked:
  assumes "linked p (xs @ c # ys)"
  shows "linked (splice_after c sd p) (xs @ c # length (nodes p) # ys) \<and>
         current_node (splice_after c sd p) = current_node p \<and>
         head (splice_after c sd p) = head p \<and>
         tail (splice_after c sd p) = (if ys = [] then Some (length (nodes p)) else tail p) \<and>
         songs_at (splice_after c sd p) (xs @ c # length (nodes p) # ys) =
           songs_at p (xs @ [c]) @ sd # songs_at p ys \<and>
         length (nodes (splice_after c sd p)) = Suc (length (nodes p))"
proof -
  from assms have fresh: "length (nodes p) \<notin> set (xs @ c # ys)"
    by (auto simp: linked_def)
  show ?thesis
  proof (cases ys)
    case Nil
    with assms fresh show ?thesis
      by (auto simp: linked_def splice_after_def Let_def songs_at_def nth_append)
  next
    case (Cons n ys')
    with assms fresh show ?thesis
      by (auto simp: linked_def splice_after_def Let_def songs_at_def nth_append ball_Un
          intro: less_SucI)
  qed
qed


lemma splice_before_linked:
  assumes "linked p (xs @ c # ys)"
  shows "linked (splice_before c sd p) (xs @ length (nodes p) # c # ys) \<and>
         current_node (splice_before c sd p) = current_node p \<and>
         tail (splice_before c sd p) = tail p \<and>
         head (splice_before c sd p) = (if xs = [] then Some (length (nodes p)) else head p) \<and>
         songs_at (splice_before c sd p) (xs @ length (nodes p) # c # ys) =
           songs_at p xs @ sd # songs_at p (c # ys) \<and>
         length (nodes (splice_before c sd p)) = Suc (length (nodes p))"
proof -
  from assms have fresh: "length (nodes p) \<notin> set (xs @ c # ys)"
    by (auto simp: linked_def)
  show ?thesis
  proof (cases xs rule: rev_cases)
    case Nil
    with assms fresh show ?thesis
      by (auto simp: linked_def splice_before_def Let_def songs_at_def nth_append ball_Un
          intro: less_SucI)
  next
    case (snoc xs' pv)
    with assms fresh show ?thesis
      by (auto simp: linked_def splice_before_def Let_def songs_at_def nth_append ball_Un
          intro: less_SucI)
  qed
qed

lemma unlink_linked:
  assumes "linked p (xs @ c # ys)"
  shows "linked (unlink c p) (xs @ ys) \<and>
         current_node (unlink c p) =
           (if current_node p = Some c
            then (case ys of n # _ \<Rightarrow> Some n
                  | [] \<Rightarrow> (if xs = [] then None else Some (last xs)))
            else current_node p) \<and>
         songs_at (unlink c p) (xs @ ys) = songs_at p (xs @ ys) \<and>
         length (nodes (unlink c p)) = length (nodes p)"
proof (cases xs rule: rev_cases)
  case Nil
  show ?thesis
  proof (cases ys)
    case Nil
    with assms \<open>xs = []\<close> show ?thesis
      by (auto simp: linked_def unlink_def Let_def songs_at_def)
  next
    case (Cons n ys')
    with assms \<open>xs = []\<close> show ?thesis
      by (auto simp: linked_def unlink_def Let_def songs_at_def)
  qed
next
  case (snoc xs' pv)
  show ?thesis
  proof (cases ys)
    case Nil
    with assms snoc show ?thesis
      by (auto simp: linked_def unlink_def Let_def songs_at_def)
  next
    case (Cons n ys')
    with assms snoc show ?thesis
      by (auto simp: linked_def unlink_def Let_def songs_at_def)
  qed
qed

lemma well_formed_forward_songs:
  "linked p as \<Longrightarrow> forward_songs p = Some (songs_at p as)"
  by (simp add: forward_songs_def linked_forward)

lemma songs_at_append: "songs_at p (xs @ ys) = songs_at p xs @ songs_at p ys"
  by (simp add: songs_at_def)

lemma songs_at_Cons: "songs_at p (x # xs) = song_data (nodes p ! x) # songs_at p xs"
  by (simp add: songs_at_def)


section \<open>Insertion after a title and removal\<close>

lemma road_trip_built: "perform_all road_trip_calls new_playlist = Some road_trip"
  by code_simp

lemma road_trip_well_formed: "well_formed road_trip [0, 1, 2]"
  by code_simp

text \<open>
  Claim C6. On a playlist that is a well-formed doubly-linked list of the nodes \<open>as\<close>:
  if no node's title matches the target up to case (in particular if the playlist is
  empty), \<^verbatim>\<open>insert_song_after\<close> returns false and the playlist is unchanged; if \<open>c\<close>
  is the first node whose title matches, it returns true, the new node stands
  immediately after \<open>c\<close> in forward traversal, the other songs keep their order, the
  tail becomes the new node exactly when \<open>c\<close> was the last node, and head and cursor
  stay.
\<close>

theorem insert_song_after_correct:
  assumes "well_formed p as"
  shows "((\<forall>a \<in> set as. \<not> title_matches p t a) \<longrightarrow> insert_song_after t sd p = Some (False, p)) \<and>
         (as = xs @ c # ys \<and> (\<forall>a \<in> set xs. \<not> title_matches p t a) \<and> title_matches p t c \<longrightarrow>
            (\<exists>p'. insert_song_after t sd p = Some (True, p') \<and>
                  well_formed p' (xs @ c # length (nodes p) # ys) \<and>
                  forward_songs p = Some (songs_at p xs @ song_data (nodes p ! c) # songs_at p ys) \<and>
                  forward_songs p' =
                    Some (songs_at p xs @ song_data (nodes p ! c) # sd # songs_at p ys) \<and>
                  head p' = head p \<and>
                  tail p' = (if ys = [] then Some (length (nodes p)) else tail p) \<and>
                  current_node p' = current_node p \<and>
                  get_size p' = get_size p + 1))"
proof (intro conjI impI)
  from assms have l: "linked p as" by (simp add: well_formed_def)
  then have ch: "chain next_node (nodes p) (head p) as None" by (simp add: linked_def)
  {
    assume "\<forall>a \<in> set as. \<not> title_matches p t a"
    then have "find (title_matches p t) as = None" by (rule find_no_match)
    with insert_after_loop_chain[OF ch, of t sd]
    show "insert_song_after t sd p = Some (False, p)"
      by (simp add: insert_song_after_def)
  }
  {
    assume a: "as = xs @ c # ys \<and> (\<forall>a \<in> set xs. \<not> title_matches p t a) \<and> title_matches p t c"
    then have f: "find (title_matches p t) as = Some c" by (simp add: find_first_match)
    from a l have "head p \<noteq> None" using linked_head[OF l] by (auto split: list.splits)
    with insert_after_loop_chain[OF ch, of t sd] f
    have r: "insert_song_after t sd p = Some (True, splice_after c sd p)"
      by (simp add: insert_song_after_def is_empty_def)
    from a l have l': "linked p (xs @ c # ys)" by simp
    note s = splice_after_linked[OF l', of sd]
    from assms a s have c: "cursor_ok (splice_after c sd p) (xs @ c # length (nodes p) # ys)"
      by (auto simp: well_formed_def cursor_ok_def split: option.splits)
    from s have sz: "get_size (splice_after c sd p) = get_size p + 1"
      using l' by (simp add: linked_def get_size_def)
    from s have fs: "forward_songs (splice_after c sd p) =
        Some (songs_at p xs @ song_data (nodes p ! c) # sd # songs_at p ys)"
      using well_formed_forward_songs[of "splice_after c sd p" "xs @ c # length (nodes p) # ys"]
      by (simp add: songs_at_append songs_at_Cons songs_at_def)
    from l' have fo: "forward_songs p = Some (songs_at p xs @ song_data (nodes p ! c) # songs_at p ys)"
      using well_formed_forward_songs[OF l'] by (simp add: songs_at_append songs_at_Cons)
    from r s c sz fs fo
    show "\<exists>p'. insert_song_after t sd p = Some (True, p') \<and>
                  well_formed p' (xs @ c # length (nodes p) # ys) \<and>
                  forward_songs p = Some (songs_at p xs @ song_data (nodes p ! c) # songs_at p ys) \<and>
                  forward_songs p' =
                    Some (songs_at p xs @ song_data (nodes p ! c) # sd # songs_at p ys) \<and>
                  head p' = head p \<and>
                  tail p' = (if ys = [] then Some (length (nodes p)) else tail p) \<and>
                  current_node p' = current_node p \<and>
                  get_size p' = get_size p + 1"
      by (simp add: well_formed_def)
  }
qed

text \<open>Claim C6 on the scenario playlist: Dawn after Moon, and a title that is absent.\<close>

theorem insert_song_after_correct_witness:
  "well_formed road_trip [0, 1, 2] \<and>
   \<not> title_matches road_trip ''MOON'' 0 \<and> title_matches road_trip ''MOON'' 1 \<and>
   (\<exists>p'. insert_song_after ''MOON'' song_dawn road_trip = Some (True, p') \<and>
         forward_songs p' = Some [song_sun, song_moon, song_dawn, song_star] \<and>
         current_node p' = Some 1 \<and> get_size p' = 4) \<and>
   insert_song_after ''Dusk'' song_dawn road_trip = Some (False, road_trip)"
proof -
  have m0: "\<not> title_matches road_trip ''MOON'' 0" by code_simp
  have m1: "title_matches road_trip ''MOON'' 1" by code_simp
  have n: "\<forall>a \<in> set [0, 1, 2]. \<not> title_matches road_trip ''Dusk'' a" by code_simp
  have v: "songs_at road_trip [0] @ song_data (nodes road_trip ! 1) # song_dawn # songs_at road_trip [2]
      = [song_sun, song_moon, song_dawn, song_star]" by code_simp
  have c: "current_node road_trip = Some 1" "get_size road_trip + 1 = 4" by code_simp+
  note t = insert_song_after_correct[OF road_trip_well_formed, of "''MOON''" song_dawn "[0]" 1 "[2]"]
  from m0 m1 t have "\<exists>p'. insert_song_after ''MOON'' song_dawn road_trip = Some (True, p') \<and>
         forward_songs p' =
           Some (songs_at road_trip [0] @ song_data (nodes road_trip ! 1) # song_dawn # songs_at road_trip [2]) \<and>
         current_node p' = current_node road_trip \<and> get_size p' = get_size road_trip + 1"
    by auto
  then have a: "\<exists>p'. insert_song_after ''MOON'' song_dawn road_trip = Some (True, p') \<and>
         forward_songs p' = Some [song_sun, song_moon, song_dawn, song_star] \<and>
         current_node p' = Some 1 \<and> get_size p' = 4"
    by (simp only: v c)
  from n insert_song_after_correct[OF road_trip_well_formed, of "''Dusk''" song_dawn "[0]" 1 "[2]"]
  have b: "insert_song_after ''Dusk'' song_dawn road_trip = Some (False, road_trip)"
    by blast
  from road_trip_well_formed m0 m1 a b show ?thesis by (intro conjI)
qed

text \<open>
  Claim C3. On a well-formed playlist of the nodes \<open>as\<close>: if no title matches up to
  case (or the playlist is empty), \<^verbatim>\<open>remove_song\<close> returns false and the playlist is
  unchanged; if \<open>c\<close> is the first matching node, it returns true, the node is unlinked
  in both directions with head and tail set to the new first and last node, the size
  drops by one, a cursor on \<open>c\<close> moves to the successor of \<open>c\<close> if there is one, else
  to its predecessor, else becomes unset, and a cursor elsewhere stays.
\<close>

theorem remove_song_correct:
  assumes "well_formed p as"
  shows "((\<forall>a \<in> set as. \<not> title_matches p t a) \<longrightarrow> remove_song t p = Some (False, p)) \<and>
         (as = xs @ c # ys \<and> (\<forall>a \<in> set xs. \<not> title_matches p t a) \<and> title_matches p t c \<longrightarrow>
            (\<exists>p'. remove_song t p = Some (True, p') \<and>
                  well_formed p' (xs @ ys) \<and>
                  forward_songs p' = Some (songs_at p (xs @ ys)) \<and>
                  backward_nodes p' = Some (rev (xs @ ys)) \<and>
                  head p' = (case xs @ ys of [] \<Rightarrow> None | a # _ \<Rightarrow> Some a) \<and>
                  tail p' = (if xs @ ys = [] then None else Some (last (xs @ ys))) \<and>
                  current_node p' =
                    (if current_node p = Some c
                     then (case ys of n # _ \<Rightarrow> Some n
                           | [] \<Rightarrow> (if xs = [] then None else Some (last xs)))
                     else current_node p) \<and>
                  get_size p' = get_size p - 1))"
proof (intro conjI impI)
  from assms have l: "linked p as" by (simp add: well_formed_def)
  then have ch: "chain next_node (nodes p) (head p) as None" by (simp add: linked_def)
  {
    assume "\<forall>a \<in> set as. \<not> title_matches p t a"
    then have "find (title_matches p t) as = None" by (rule find_no_match)
    with remove_loop_chain[OF ch, of t]
    show "remove_song t p = Some (False, p)"
      by (simp add: remove_song_def)
  }
  {
    assume a: "as = xs @ c # ys \<and> (\<forall>a \<in> set xs. \<not> title_matches p t a) \<and> title_matches p t c"
    then have f: "find (title_matches p t) as = Some c" by (simp add: find_first_match)
    from a l have "head p \<noteq> None" using linked_head[OF l] by (auto split: list.splits)
    with remove_loop_chain[OF ch, of t] f
    have r: "remove_song t p = Some (True, unlink c p)"
      by (simp add: remove_song_def is_empty_def)
    from a l have l': "linked p (xs @ c # ys)" by simp
    note s = unlink_linked[OF l']
    then have l2: "linked (unlink c p) (xs @ ys)" by simp
    from l' have d: "c \<notin> set xs" "c \<notin> set ys" by (auto simp: linked_def)
    from assms a s d have c: "cursor_ok (unlink c p) (xs @ ys)"
      by (auto simp: well_formed_def cursor_ok_def split: option.splits list.splits)
    from l2 l' have sz: "get_size (unlink c p) = get_size p - 1"
      by (simp add: linked_def get_size_def)
    from s have fs: "forward_songs (unlink c p) = Some (songs_at p (xs @ ys))"
      using well_formed_forward_songs[OF l2] by simp
    from r s c sz fs linked_backward[OF l2] linked_head[OF l2] linked_tail[OF l2]
    show "\<exists>p'. remove_song t p = Some (True, p') \<and>
                  well_formed p' (xs @ ys) \<and>
                  forward_songs p' = Some (songs_at p (xs @ ys)) \<and>
                  backward_nodes p' = Some (rev (xs @ ys)) \<and>
                  head p' = (case xs @ ys of [] \<Rightarrow> None | a # _ \<Rightarrow> Some a) \<and>
                  tail p' = (if xs @ ys = [] then None else Some (last (xs @ ys))) \<and>
                  current_node p' =
                    (if current_node p = Some c
                     then (case ys of n # _ \<Rightarrow> Some n
                           | [] \<Rightarrow> (if xs = [] then None else Some (last xs)))
                     else current_node p) \<and>
                  get_size p' = get_size p - 1"
      by (simp add: well_formed_def)
  }
qed
text \<open>
  Claim C3 on the scenario playlist: removing the node under the cursor, removing the
  head while the cursor is elsewhere, and a title that is absent.
\<close>

theorem remove_song_correct_witness:
  "well_formed road_trip [0, 1, 2] \<and>
   \<not> title_matches road_trip ''moon'' 0 \<and> title_matches road_trip ''moon'' 1 \<and>
   current_node road_trip = Some 1 \<and>
   (\<exists>p'. remove_song ''moon'' road_trip = Some (True, p') \<and>
         forward_songs p' = Some [song_sun, song_star] \<and>
         current_node p' = Some 2 \<and> get_size p' = 2) \<and>
   title_matches road_trip ''SUN'' 0 \<and>
   (\<exists>p'. remove_song ''SUN'' road_trip = Some (True, p') \<and>
         forward_songs p' = Some [song_moon, song_star] \<and>
         head p' = Some 1 \<and> current_node p' = Some 1) \<and>
   remove_song ''Dusk'' road_trip = Some (False, road_trip)"
proof -
  have m0: "\<not> title_matches road_trip ''moon'' 0" by code_simp
  have m1: "title_matches road_trip ''moon'' 1" by code_simp
  have s0: "title_matches road_trip ''SUN'' 0" by code_simp
  have n: "\<forall>a \<in> set [0, 1, 2]. \<not> title_matches road_trip ''Dusk'' a" by code_simp
  have v: "songs_at road_trip [0, 2] = [song_sun, song_star]"
     "songs_at road_trip [Suc 0, 2] = [song_moon, song_star]" by code_simp+
  have c: "current_node road_trip = Some 1" "get_size road_trip - 1 = 2" by code_simp+
  note t = remove_song_correct[OF road_trip_well_formed, of "''moon''" "[0]" 1 "[2]"]
  from m0 m1 t have "\<exists>p'. remove_song ''moon'' road_trip = Some (True, p') \<and>
         forward_songs p' = Some (songs_at road_trip ([0] @ [2])) \<and>
         current_node p' = (if current_node road_trip = Some 1
                     then (case [2] of n # _ \<Rightarrow> Some n
                           | [] \<Rightarrow> (if [0::nat] = [] then None else Some (last [0])))
                     else current_node road_trip) \<and>
         get_size p' = get_size road_trip - 1"
    by auto
  then have a: "\<exists>p'. remove_song ''moon'' road_trip = Some (True, p') \<and>
         forward_songs p' = Some [song_sun, song_star] \<and>
         current_node p' = Some 2 \<and> get_size p' = 2"
    by (simp add: v c)
  note t2 = remove_song_correct[OF road_trip_well_formed, of "''SUN''" "[]" 0 "[1, 2]"]
  from s0 t2 have "\<exists>p'. remove_song ''SUN'' road_trip = Some (True, p') \<and>
         forward_songs p' = Some (songs_at road_trip ([] @ [1, 2])) \<and>
         head p' = (case [] @ [1, 2] of [] \<Rightarrow> None | a # _ \<Rightarrow> Some a) \<and>
         current_node p' = (if current_node road_trip = Some 0
                     then (case [1, 2] of n # _ \<Rightarrow> Some n
                           | [] \<Rightarrow> (if ([]::nat list) = [] then None else Some (last [])))
                     else current_node road_trip)"
    by auto
  then have a2: "\<exists>p'. remove_song ''SUN'' road_trip = Some (True, p') \<and>
         forward_songs p' = Some [song_moon, song_star] \<and>
         head p' = Some 1 \<and> current_node p' = Some 1"
    by (simp add: v c)
  from n remove_song_correct[OF road_trip_well_formed, of "''Dusk''" "[0]" 1 "[2]"]
  have b: "remove_song ''Dusk'' road_trip = Some (False, road_trip)"
    by blast
  from road_trip_well_formed m0 m1 c(1) a s0 a2 b show ?thesis by (intro conjI)
qed

section \<open>Results of the scans and the invariant\<close>

lemma insert_song_after_miss:
  assumes "linked p as" "\<forall>a \<in> set as. \<not> title_matches p t a"
  shows "insert_song_after t sd p = Some (False, p)"
proof -
  from assms(1) have "chain next_node (nodes p) (head p) as None" by (simp add: linked_def)
  from insert_after_loop_chain[OF this, of t sd] find_no_match[OF assms(2)]
  show ?thesis by (simp add: insert_song_after_def)
qed

lemma insert_song_after_hit:
  assumes "linked p (xs @ c # ys)" "\<forall>a \<in> set xs. \<not> title_matches p t a" "title_matches p t c"
  shows "insert_song_after t sd p = Some (True, splice_after c sd p)"
proof -
  from assms(1) have "chain next_node (nodes p) (head p) (xs @ c # ys) None"
    by (simp add: linked_def)
  from insert_after_loop_chain[OF this, of t sd] find_first_match[OF assms(2,3), of ys]
    linked_head[OF assms(1)]
  show ?thesis by (auto simp: insert_song_after_def is_empty_def split: list.splits)
qed

lemma insert_song_before_miss:
  assumes "linked p as" "\<forall>a \<in> set as. \<not> title_matches p t a"
  shows "insert_song_before t sd p = Some (False, p)"
proof -
  from assms(1) have "chain next_node (nodes p) (head p) as None" by (simp add: linked_def)
  from insert_before_loop_chain[OF this, of t sd] find_no_match[OF assms(2)]
  show ?thesis by (simp add: insert_song_before_def)
qed

lemma insert_song_before_hit:
  assumes "linked p (xs @ c # ys)" "\<forall>a \<in> set xs. \<not> title_matches p t a" "title_matches p t c"
  shows "insert_song_before t sd p = Some (True, splice_before c sd p)"
proof -
  from assms(1) have "chain next_node (nodes p) (head p) (xs @ c # ys) None"
    by (simp add: linked_def)
  from insert_before_loop_chain[OF this, of t sd] find_first_match[OF assms(2,3), of ys]
    linked_head[OF assms(1)]
  show ?thesis by (auto simp: insert_song_before_def is_empty_def split: list.splits)
qed

lemma remove_song_miss:
  assumes "linked p as" "\<forall>a \<in> set as. \<not> title_matches p t a"
  shows "remove_song t p = Some (False, p)"
proof -
  from assms(1) have "chain next_node (nodes p) (head p) as None" by (simp add: linked_def)
  from remove_loop_chain[OF this, of t] find_no_match[OF assms(2)]
  show ?thesis by (simp add: remove_song_def)
qed

lemma remove_song_hit:
  assumes "linked p (xs @ c # ys)" "\<forall>a \<in> set xs. \<not> title_matches p t a" "title_matches p t c"
  shows "remove_song t p = Some (True, unlink c p)"
proof -
  from assms(1) have "chain next_node (nodes p) (head p) (xs @ c # ys) None"
    by (simp add: linked_def)
  from remove_loop_chain[OF this, of t] find_first_match[OF assms(2,3), of ys]
    linked_head[OF assms(1)]
  show ?thesis by (auto simp: remove_song_def is_empty_def split: list.splits)
qed

lemma chain_successor_member:
  assumes "chain f h a as None" "c \<in> set as" "f (h ! c) = Some n"
  shows "n \<in> set as"
proof -
  from assms(2) obtain xs ys where as: "as = xs @ c # ys" by (auto dest: split_list)
  with assms(1,3) have "chain f h (Some n) ys None" by simp
  then have "ys \<noteq> [] \<and> hd ys = n" by (cases ys) auto
  with as show ?thesis by (cases ys) auto
qed

subsection \<open>Every call other than the reversal keeps the playlist well-formed\<close>

lemma add_at_end_well_formed:
  assumes "well_formed p as"
  shows "\<exists>p' as'. perform (Add_at_end sd) p = Some p' \<and> well_formed p' as'"
proof -
  from assms have l: "linked p as" by (simp add: well_formed_def)
  from add_song_at_end_linked[OF l, of sd] obtain p' where
    p': "add_song_at_end sd p = Inr p'" "linked p' (as @ [length (nodes p)])"
    "current_node p' = (if as = [] then Some (length (nodes p)) else current_node p)"
    by blast
  with assms have "cursor_ok p' (as @ [length (nodes p)])"
    by (auto simp: well_formed_def cursor_ok_def split: option.splits)
  with p' show ?thesis by (auto simp: well_formed_def)
qed

lemma add_at_beginning_well_formed:
  assumes "well_formed p as"
  shows "\<exists>p' as'. perform (Add_at_beginning sd) p = Some p' \<and> well_formed p' as'"
proof -
  from assms have l: "linked p as" by (simp add: well_formed_def)
  note s = add_song_at_beginning_linked[OF l, of sd]
  with assms have "cursor_ok (add_song_at_beginning sd p) (length (nodes p) # as)"
    by (auto simp: well_formed_def cursor_ok_def split: option.splits)
  with s show ?thesis by (auto simp: well_formed_def)
qed

lemma insert_after_well_formed:
  assumes "well_formed p as"
  shows "\<exists>p' as'. perform (Insert_after t sd) p = Some p' \<and> well_formed p' as'"
proof (cases "\<exists>a \<in> set as. title_matches p t a")
  case False
  with assms insert_song_after_miss[of p as t sd] show ?thesis
    by (auto simp: well_formed_def)
next
  case True
  from first_match_split[OF True] obtain xs c ys where
    as: "as = xs @ c # ys" "\<forall>a \<in> set xs. \<not> title_matches p t a" "title_matches p t c"
    by blast
  from assms as have l: "linked p (xs @ c # ys)" by (simp add: well_formed_def)
  note s = splice_after_linked[OF l, of sd]
  with assms as have "cursor_ok (splice_after c sd p) (xs @ c # length (nodes p) # ys)"
    by (auto simp: well_formed_def cursor_ok_def split: option.splits)
  with s insert_song_after_hit[OF l as(2,3), of sd] show ?thesis
    by (auto simp: well_formed_def)
qed

lemma insert_before_well_formed:
  assumes "well_formed p as"
  shows "\<exists>p' as'. perform (Insert_before t sd) p = Some p' \<and> well_formed p' as'"
proof (cases "\<exists>a \<in> set as. title_matches p t a")
  case False
  with assms insert_song_before_miss[of p as t sd] show ?thesis
    by (auto simp: well_formed_def)
next
  case True
  from first_match_split[OF True] obtain xs c ys where
    as: "as = xs @ c # ys" "\<forall>a \<in> set xs. \<not> title_matches p t a" "title_matches p t c"
    by blast
  from assms as have l: "linked p (xs @ c # ys)" by (simp add: well_formed_def)
  note s = splice_before_linked[OF l, of sd]
  with assms as have "cursor_ok (splice_before c sd p) (xs @ length (nodes p) # c # ys)"
    by (auto simp: well_formed_def cursor_ok_def split: option.splits)
  with s insert_song_before_hit[OF l as(2,3), of sd] show ?thesis
    by (auto simp: well_formed_def)
qed

lemma remove_well_formed:
  assumes "well_formed p as"
  shows "\<exists>p' as'. perform (Remove t) p = Some p' \<and> well_formed p' as'"
proof (cases "\<exists>a \<in> set as. title_matches p t a")
  case False
  with assms remove_song_miss[of p as t] show ?thesis
    by (auto simp: well_formed_def)
next
  case True
  from first_match_split[OF True] obtain xs c ys where
    as: "as = xs @ c # ys" "\<forall>a \<in> set xs. \<not> title_matches p t a" "title_matches p t c"
    by blast
  from assms as have l: "linked p (xs @ c # ys)" by (simp add: well_formed_def)
  note s = unlink_linked[OF l]
  from l have d: "c \<notin> set xs" "c \<notin> set ys" by (auto simp: linked_def)
  from assms as s d have "cursor_ok (unlink c p) (xs @ ys)"
    by (auto simp: well_formed_def cursor_ok_def split: option.splits list.splits)
  with s remove_song_hit[OF l as(2,3)] show ?thesis
    by (auto simp: well_formed_def)
qed

lemma linked_cursor_update:
  "linked p as \<Longrightarrow> linked (p\<lparr>current_node := c\<rparr>) as"
  by (simp add: linked_def)

lemma navigation_well_formed:
  assumes "well_formed p as" "c = Next_song \<or> c = Previous_song \<or> c = Go_to_first \<or> c = Go_to_last"
  shows "\<exists>p'. perform c p = Some p' \<and> well_formed p' as"
proof -
  from assms(1) have l: "linked p as" and cu: "cursor_ok p as" by (simp_all add: well_formed_def)
  from l have f: "chain next_node (nodes p) (head p) as None"
      and b: "chain previous (nodes p) (tail p) (rev as) None" by (simp_all add: linked_def)
  from assms(2) consider "c = Next_song" | "c = Previous_song" | "c = Go_to_first" | "c = Go_to_last"
    by blast
  then show ?thesis
  proof cases
    case 1
    with l cu chain_successor_member[OF f] show ?thesis
      by (auto simp: well_formed_def next_song_def cursor_ok_def linked_cursor_update
          split: option.splits)
  next
    case 2
    with l cu chain_successor_member[OF b] show ?thesis
      by (auto simp: well_formed_def previous_song_def cursor_ok_def linked_cursor_update
          split: option.splits)
  next
    case 3
    with l cu linked_head[OF l] show ?thesis
      by (auto simp: well_formed_def go_to_first_song_def cursor_ok_def linked_cursor_update
          split: option.splits list.splits)
  next
    case 4
    with l cu linked_head[OF l] linked_tail[OF l] show ?thesis
      by (auto simp: well_formed_def go_to_last_song_def cursor_ok_def linked_cursor_update
          is_empty_def split: option.splits list.splits if_splits)
  qed
qed

subsection \<open>shuffle_playlist\<close>

lemma swap_pairs_returns:
  "\<forall>d \<in> set ds. fst d < length songs \<and> snd d < length songs \<Longrightarrow>
   \<exists>r. swap_pairs ds songs = Inr r \<and> length r = length songs \<and> mset r = mset songs"
proof (induction ds arbitrary: songs)
  case Nil
  then show ?case by simp
next
  case (Cons d ds)
  show ?case
  proof (cases "fst d = snd d")
    case True
    with Cons.IH[of songs] Cons.prems show ?thesis by simp
  next
    case False
    let ?s = "songs[fst d := songs ! snd d, snd d := songs ! fst d]"
    from Cons.prems have r: "fst d < length songs" "snd d < length songs" by auto
    then have m: "mset ?s = mset songs" by (simp add: mset_swap)
    from Cons.prems have "\<forall>e \<in> set ds. fst e < length ?s \<and> snd e < length ?s" by simp
    from Cons.IH[OF this] obtain res where
      "swap_pairs ds ?s = Inr res" "length res = length ?s" "mset res = mset ?s" by blast
    with False r m show ?thesis by simp
  qed
qed

lemma draws_in_range:
  "0 < n \<Longrightarrow> \<forall>d \<in> set (draws raw n). fst d < n \<and> snd d < n"
  by (auto simp: draws_def)

lemma add_songs_linked:
  "linked p as \<Longrightarrow>
   \<exists>p' bs. add_songs ss p = Inr p' \<and> linked p' (as @ bs) \<and> length bs = length ss \<and>
          songs_at p' (as @ bs) = songs_at p as @ ss"
proof (induction ss arbitrary: p as)
  case Nil
  then show ?case by simp
next
  case (Cons s ss)
  from add_song_at_end_linked[OF Cons.prems, of s] obtain p1 where
    p1: "add_song_at_end s p = Inr p1" "linked p1 (as @ [length (nodes p)])"
      "songs_at p1 (as @ [length (nodes p)]) = songs_at p as @ [s]" by blast
  from Cons.IH[OF p1(2)] obtain p' bs where
    p': "add_songs ss p1 = Inr p'" "linked p' ((as @ [length (nodes p)]) @ bs)"
      "length bs = length ss"
      "songs_at p' ((as @ [length (nodes p)]) @ bs) = songs_at p1 (as @ [length (nodes p)]) @ ss"
    by blast
  with p1 have "add_songs (s # ss) p = Inr p' \<and> linked p' (as @ (length (nodes p) # bs)) \<and>
      length (length (nodes p) # bs) = length (s # ss) \<and>
      songs_at p' (as @ (length (nodes p) # bs)) = songs_at p as @ s # ss"
    by simp
  then show ?case by blast
qed

lemma shuffle_well_formed:
  assumes "well_formed p as"
  shows "\<exists>p' as'. shuffle_playlist raw p = Some (Inr p') \<and> well_formed p' as' \<and>
           length as' = length as \<and> mset (songs_at p' as') = mset (songs_at p as)"
proof (cases "size_field p \<le> 1")
  case True
  with assms show ?thesis by (auto simp: shuffle_playlist_def)
next
  case False
  from assms have l: "linked p as" by (simp add: well_formed_def)
  then have sz: "size_field p = int (length as)" by (simp add: linked_def)
  with False have n: "nat (size_field p) = length as" "0 < length as" by auto
  from l have w: "walk next_node (nodes p) (head p) [] = Some as"
    using linked_forward[OF l] by (simp add: forward_nodes_def)
  have len: "length (songs_at p as) = length as" by (simp add: songs_at_def)
  from draws_in_range[OF n(2), of raw] len
  have "\<forall>d \<in> set (draws raw (length as)). fst d < length (songs_at p as) \<and> snd d < length (songs_at p as)"
    by simp
  from swap_pairs_returns[OF this] obtain songs where
    s: "swap_pairs (draws raw (length as)) (songs_at p as) = Inr songs"
      "length songs = length as" "mset songs = mset (songs_at p as)"
    using len by auto
  let ?p0 = "p\<lparr>head := None, tail := None, size_field := 0\<rparr>"
  have "linked ?p0 []" by (simp add: linked_def)
  from add_songs_linked[OF this, of songs] obtain p' bs where
    p': "add_songs songs ?p0 = Inr p'" "linked p' bs" "length bs = length songs"
      "songs_at p' bs = songs" by (auto simp: songs_at_def)
  from p'(3) s(2) n(2) have ne: "bs \<noteq> []" by auto
  from linked_head[OF p'(2)] ne have h: "head p' = Some (hd bs)" by (cases bs) auto
  have l': "linked (p'\<lparr>current_node := head p'\<rparr>) bs" using p'(2) by (rule linked_cursor_update)
  from h ne have c: "cursor_ok (p'\<lparr>current_node := head p'\<rparr>) bs" by (simp add: cursor_ok_def)
  have sg: "songs_at (p'\<lparr>current_node := head p'\<rparr>) bs = songs" using p'(4) by (simp add: songs_at_def)
  from False w n s p' have "shuffle_playlist raw p = Some (Inr (p'\<lparr>current_node := head p'\<rparr>))"
    by (simp add: shuffle_playlist_def)
  with l' c sg s p'(3) show ?thesis by (auto simp: well_formed_def)
qed

lemma perform_well_formed:
  assumes "well_formed p as" "c \<noteq> Reverse"
  shows "\<exists>p' as'. perform c p = Some p' \<and> well_formed p' as'"
proof (cases c)
  case (Add_at_end sd)
  with add_at_end_well_formed[OF assms(1)] show ?thesis by simp
next
  case (Add_at_beginning sd)
  with add_at_beginning_well_formed[OF assms(1)] show ?thesis by simp
next
  case (Insert_after t sd)
  with insert_after_well_formed[OF assms(1)] show ?thesis by simp
next
  case (Insert_before t sd)
  with insert_before_well_formed[OF assms(1)] show ?thesis by simp
next
  case (Remove t)
  with remove_well_formed[OF assms(1)] show ?thesis by simp
next
  case Next_song
  with navigation_well_formed[OF assms(1), of c] show ?thesis by blast
next
  case Previous_song
  with navigation_well_formed[OF assms(1), of c] show ?thesis by blast
next
  case Go_to_first
  with navigation_well_formed[OF assms(1), of c] show ?thesis by blast
next
  case Go_to_last
  with navigation_well_formed[OF assms(1), of c] show ?thesis by blast
next
  case Reverse
  with assms(2) show ?thesis by simp
next
  case (Shuffle raw)
  from shuffle_well_formed[OF assms(1), of raw] obtain p' as' where
    "shuffle_playlist raw p = Some (Inr p')" "well_formed p' as'" by blast
  with Shuffle show ?thesis by auto
qed

lemma perform_all_well_formed:
  "well_formed p as \<Longrightarrow> Reverse \<notin> set cs \<Longrightarrow>
   \<exists>p' as'. perform_all cs p = Some p' \<and> well_formed p' as'"
proof (induction cs arbitrary: p as)
  case Nil
  then show ?case by auto
next
  case (Cons c cs)
  from Cons.prems have "c \<noteq> Reverse" by auto
  from perform_well_formed[OF Cons.prems(1) this] obtain p1 as1 where
    s: "perform c p = Some p1" "well_formed p1 as1" by blast
  from Cons.IH[OF s(2)] Cons.prems(2) obtain p' as' where
    "perform_all cs p1 = Some p'" "well_formed p' as'" by auto
  with s(1) show ?case by auto
qed

lemma new_playlist_well_formed: "well_formed new_playlist []"
  by (simp add: well_formed_def linked_def cursor_ok_def new_playlist_def)

lemma edits_without_reverse: "list_all is_edit cs \<Longrightarrow> Reverse \<notin> set cs"
  by (induction cs) auto


section \<open>Size and traversals\<close>

text \<open>
  Claim C7. After every sequence of additions at the end or the start, insertions after
  or before a title and removals, carried out on the empty playlist, every call has
  returned, forward traversal from the head and backward traversal from the tail both
  end, they visit the same nodes (in opposite order), and the size field is the number
  of nodes either traversal visits.
\<close>

theorem size_counts_nodes:
  assumes "list_all is_edit cmds"
  shows "\<exists>p as. perform_all cmds new_playlist = Some p \<and>
           forward_nodes p = Some as \<and> backward_nodes p = Some (rev as) \<and>
           get_size p = int (length as) \<and> get_size p = int (length (rev as))"
proof -
  from perform_all_well_formed[OF new_playlist_well_formed edits_without_reverse[OF assms]]
  obtain p as where p: "perform_all cmds new_playlist = Some p" "well_formed p as" by blast
  then have l: "linked p as" by (simp add: well_formed_def)
  from l have "get_size p = int (length as)" by (simp add: linked_def get_size_def)
  with p(1) linked_forward[OF l] linked_backward[OF l] show ?thesis by auto
qed

text \<open>Claim C7 on a run with every kind of edit, among them a removal that finds nothing.\<close>

theorem size_counts_nodes_witness:
  "list_all is_edit edit_calls \<and>
   map_option forward_nodes (perform_all edit_calls new_playlist) = Some (Some [1, 3, 2]) \<and>
   map_option backward_nodes (perform_all edit_calls new_playlist) = Some (Some [2, 3, 1]) \<and>
   map_option get_size (perform_all edit_calls new_playlist) = Some 3 \<and>
   (\<exists>p as. perform_all edit_calls new_playlist = Some p \<and>
           forward_nodes p = Some as \<and> backward_nodes p = Some (rev as) \<and>
           get_size p = int (length as) \<and> get_size p = int (length (rev as)))"
proof -
  have e: "list_all is_edit edit_calls" by code_simp
  have v: "map_option forward_nodes (perform_all edit_calls new_playlist) = Some (Some [1, 3, 2])"
    "map_option backward_nodes (perform_all edit_calls new_playlist) = Some (Some [2, 3, 1])"
    "map_option get_size (perform_all edit_calls new_playlist) = Some 3"
    by code_simp+
  from e v size_counts_nodes[OF e] show ?thesis by (intro conjI)
qed

section \<open>The reversal\<close>

subsection \<open>Loops on a cycle never return\<close>

lemma relocate_on_cycle:
  assumes cyc: "\<forall>t \<in> S. song_data (h ! t) \<noteq> song_data (h ! cur) \<and> (\<exists>n \<in> S. next_node (h ! t) = Some n)"
    and t: "t \<in> S"
  shows "relocate h cur (Some t) = None"
proof (rule ccontr)
  assume "relocate h cur (Some t) \<noteq> None"
  then obtain y where y: "relocate h cur (Some t) = Some y" by auto
  have "h = h \<longrightarrow> cur = cur \<longrightarrow> (\<exists>u \<in> S. Some t = Some u) \<longrightarrow> False"
  proof (rule relocate.raw_induct[where P = "\<lambda>h' cur' temp y'. h' = h \<longrightarrow> cur' = cur \<longrightarrow> (\<exists>t \<in> S. temp = Some t) \<longrightarrow> False",
        OF _ y])
    fix rel h' cur' temp y'
    assume IH: "\<And>h' cur' temp y'. rel h' cur' temp = Some y' \<Longrightarrow>
        h' = h \<longrightarrow> cur' = cur \<longrightarrow> (\<exists>t \<in> S. temp = Some t) \<longrightarrow> False"
      and eq: "(case temp of None \<Rightarrow> Some cur'
           | Some t \<Rightarrow> if song_data (h' ! t) = song_data (h' ! cur') then Some t
                      else rel h' cur' (next_node (h' ! t))) = Some y'"
    show "h' = h \<longrightarrow> cur' = cur \<longrightarrow> (\<exists>t \<in> S. temp = Some t) \<longrightarrow> False"
    proof (intro impI)
      assume h: "h' = h" and c: "cur' = cur" and "\<exists>t \<in> S. temp = Some t"
      then obtain u where u: "u \<in> S" "temp = Some u" by auto
      with cyc obtain n where n: "n \<in> S" "next_node (h ! u) = Some n"
        and d: "song_data (h ! u) \<noteq> song_data (h ! cur)" by blast
      from eq u d n h c have "rel h cur (Some n) = Some y'" by simp
      from IH[OF this] n show False by auto
    qed
  qed
  with t show False by auto
qed

lemma walk_on_cycle:
  assumes cyc: "\<forall>t \<in> S. \<exists>n \<in> S. f (h ! t) = Some n" and t: "t \<in> S"
  shows "walk f h (Some t) acc = None"
proof (rule ccontr)
  assume "walk f h (Some t) acc \<noteq> None"
  then obtain y where y: "walk f h (Some t) acc = Some y" by auto
  have "f = f \<longrightarrow> h = h \<longrightarrow> (\<exists>u \<in> S. Some t = Some u) \<longrightarrow> False"
  proof (rule walk.raw_induct[where P = "\<lambda>f' h' cur vis y'. f' = f \<longrightarrow> h' = h \<longrightarrow> (\<exists>t \<in> S. cur = Some t) \<longrightarrow> False",
        OF _ y])
    fix wlk f' h' cur vis y'
    assume IH: "\<And>f' h' cur vis y'. wlk f' h' cur vis = Some y' \<Longrightarrow>
        f' = f \<longrightarrow> h' = h \<longrightarrow> (\<exists>t \<in> S. cur = Some t) \<longrightarrow> False"
      and eq: "(case cur of None \<Rightarrow> Some vis
           | Some c \<Rightarrow> wlk f' h' (f' (h' ! c)) (vis @ [c])) = Some y'"
    show "f' = f \<longrightarrow> h' = h \<longrightarrow> (\<exists>t \<in> S. cur = Some t) \<longrightarrow> False"
    proof (intro impI)
      assume f: "f' = f" and h: "h' = h" and "\<exists>t \<in> S. cur = Some t"
      then obtain u where u: "u \<in> S" "cur = Some u" by auto
      with cyc obtain n where n: "n \<in> S" "f (h ! u) = Some n" by blast
      from eq u n f h have "wlk f h (Some n) (vis @ [u]) = Some y'" by simp
      from IH[OF this] n show False by auto
    qed
  qed
  with t show False by auto
qed

lemma reachable_within:
  assumes "reachable h a b" "\<forall>t \<in> S. \<forall>n. next_node (h ! t) = Some n \<longrightarrow> n \<in> S"
  shows "\<forall>t. a = Some t \<longrightarrow> t \<in> S \<longrightarrow> b \<in> S"
  using assms
proof (induction rule: reachable.induct)
  case (here h a)
  then show ?case by simp
next
  case (step h a b)
  from step.hyps obtain n where n: "next_node (h ! a) = Some n"
    by (cases rule: reachable.cases) auto
  show ?case
  proof (intro allI impI)
    fix t assume "Some a = Some t" "t \<in> S"
    with n step.prems have "n \<in> S" by auto
    with step.IH[OF step.prems] n show "b \<in> S" by simp
  qed
qed

subsection \<open>What the reversal loop does\<close>

lemma reverse_links_flips_tail_only:
  assumes "linked p as" "as \<noteq> []"
  shows "reverse_links (nodes p) (tail p) = Some (swap_links (last as) (nodes p))"
proof -
  from assms obtain bs t where as: "as = bs @ [t]" by (cases as rule: rev_cases) auto
  with assms(1) have t: "tail p = Some t" "t < length (nodes p)" "next_node (nodes p ! t) = None"
    by (auto simp: linked_def)
  then have "previous (swap_links t (nodes p) ! t) = None"
    by (simp add: swap_links_def)
  then have "reverse_links (swap_links t (nodes p)) (previous (swap_links t (nodes p) ! t))
      = Some (swap_links t (nodes p))"
    by (simp add: reverse_links.simps)
  with t as show ?thesis by (subst reverse_links.simps) simp
qed

lemma three_songs_built: "perform_all three_songs_calls new_playlist = Some three_songs"
  by code_simp

lemma three_songs_well_formed: "well_formed three_songs [0, 1, 2]"
  by code_simp

lemma three_songs_links:
  "reverse_links (nodes three_songs) (Some 2) = Some (nodes road_trip_reversed)"
  by code_simp

lemma reversed_cycle_songs:
  "\<forall>t \<in> {1, 2}. song_data (nodes road_trip_reversed ! t) \<noteq> song_data (nodes road_trip_reversed ! 0) \<and>
     (\<exists>n \<in> {1, 2}. next_node (nodes road_trip_reversed ! t) = Some n)"
  by code_simp

lemma reversed_cycle:
  "\<forall>t \<in> {1, 2}. \<exists>n \<in> {1, 2}. next_node (nodes road_trip_reversed ! t) = Some n"
  by code_simp


text \<open>
  Claim C4 does not hold of the code. The link-reversal loop of \<^verbatim>\<open>reverse_playlist\<close>
  starts at the new head, which is the old tail, and steps to \<^verbatim>\<open>current.previous\<close>
  after the swap, which is the old \<^verbatim>\<open>next\<close> of the old tail, that is None: it flips one
  node and stops (\<open>reverse_links_flips_tail_only\<close>). On three songs added at the end,
  with the cursor still on the first, the search for the cursor's song then runs
  round the cycle Star, Moon, Star, ... and the call never returns. With the cursor on
  Moon the call returns, and forward traversal of the result never ends, where the
  original visits the three nodes.
\<close>

theorem reverse_playlist_not_involution:
  "perform_all three_songs_calls new_playlist = Some three_songs \<and>
   well_formed three_songs [0, 1, 2] \<and>
   reverse_playlist three_songs = None \<and>
   perform_all road_trip_calls new_playlist = Some road_trip \<and>
   reverse_playlist road_trip = Some road_trip_reversed \<and>
   forward_nodes road_trip = Some [0, 1, 2] \<and>
   forward_nodes road_trip_reversed = None"
proof -
  have r: "relocate (nodes road_trip_reversed) 0 (Some 2) = None"
    by (rule relocate_on_cycle[OF reversed_cycle_songs]) simp
  have c: "current_node three_songs = Some 0" "tail three_songs = Some 2"
    "\<not> size_field three_songs \<le> 1" by code_simp+
  have a: "reverse_playlist three_songs = None"
    by (simp add: reverse_playlist_def c three_songs_links r)
  have b: "reverse_playlist road_trip = Some road_trip_reversed" by code_simp
  have w: "walk next_node (nodes road_trip_reversed) (Some 2) [] = None"
    by (rule walk_on_cycle[OF reversed_cycle]) simp
  have h: "head road_trip_reversed = Some 2" by code_simp
  have f: "forward_nodes road_trip_reversed = None"
    by (simp add: forward_nodes_def h w)
  have g: "forward_nodes road_trip = Some [0, 1, 2]" by code_simp
  have rt: "perform_all road_trip_calls new_playlist = Some road_trip" by code_simp
  from three_songs_built three_songs_well_formed a rt b g f show ?thesis by (intro conjI)
qed

text \<open>
  Claim C9 does not hold of the code, by the same defect of \<^verbatim>\<open>reverse_playlist\<close>: after
  adding three songs, \<^verbatim>\<open>go_to_first_song\<close>, \<^verbatim>\<open>next_song\<close>, \<^verbatim>\<open>reverse_playlist\<close> and
  \<^verbatim>\<open>previous_song\<close> the cursor is on the node of Sun, which no walk from the head along
  \<^verbatim>\<open>next\<close> reaches. Every call other than the reversal, the shuffle included, keeps a
  well-formed playlist well-formed (\<open>perform_all_well_formed\<close>), with the cursor set
  exactly on non-empty playlists and on a node of the list.
\<close>

theorem cursor_unreachable_after_reverse:
  "perform_all lost_cursor_calls new_playlist = Some lost_cursor \<and>
   head lost_cursor = Some 2 \<and> current_node lost_cursor = Some 0 \<and>
   \<not> reachable (nodes lost_cursor) (head lost_cursor) 0 \<and>
   forward_nodes lost_cursor = None"
proof -
  have p: "perform_all lost_cursor_calls new_playlist = Some lost_cursor" by code_simp
  have h: "head lost_cursor = Some 2" "current_node lost_cursor = Some 0"
    "nodes lost_cursor = nodes road_trip_reversed" by code_simp+
  have cl: "\<forall>t \<in> {1, 2}. \<forall>n. next_node (nodes road_trip_reversed ! t) = Some n \<longrightarrow> n \<in> {1, 2}"
    using reversed_cycle by auto
  have n: "\<not> reachable (nodes lost_cursor) (head lost_cursor) 0"
  proof
    assume "reachable (nodes lost_cursor) (head lost_cursor) 0"
    then have "reachable (nodes road_trip_reversed) (Some 2) 0" by (simp add: h)
    from reachable_within[OF this cl] show False by simp
  qed
  have w: "walk next_node (nodes road_trip_reversed) (Some 2) [] = None"
    by (rule walk_on_cycle[OF reversed_cycle]) simp
  have f: "forward_nodes lost_cursor = None"
    by (simp add: forward_nodes_def h w)
  from p h(1,2) n f show ?thesis by (intro conjI)
qed

section \<open>The playlist manager\<close>

text \<open>
  Claim C2, as amended. If the name is already a key, \<^verbatim>\<open>create_playlist\<close> returns false and
  the manager (mapping, the playlist under the name, current selection) is unchanged;
  otherwise it returns true, maps the name to a new empty playlist and makes the name
  the current one. The description has no effect on the result: the manager does not
  store it.
\<close>

theorem create_playlist_correct:
  "(name \<in> dom (playlists m) \<longrightarrow> create_playlist name description m = (False, m)) \<and>
   (name \<notin> dom (playlists m) \<longrightarrow>
      create_playlist name description m =
        (True, m\<lparr>playlists := (playlists m)(name \<mapsto> new_playlist),
                  current_playlist_name := Some name\<rparr>) \<and>
      playlists (snd (create_playlist name description m)) name = Some new_playlist \<and>
      is_empty new_playlist \<and> get_size new_playlist = 0 \<and>
      (\<forall>other. other \<noteq> name \<longrightarrow>
         playlists (snd (create_playlist name description m)) other = playlists m other) \<and>
      current_playlist_name (snd (create_playlist name description m)) = Some name) \<and>
   create_playlist name description m = create_playlist name description' m"
  by (simp add: create_playlist_def is_empty_def get_size_def new_playlist_def)

text \<open>
  Claim C2 as stated fails: two different descriptions leave the same manager, so the
  description given is not stored in it.
\<close>

theorem create_playlist_description_counterexample:
  "''songs for the road'' \<noteq> ''quiet evening'' \<and>
   create_playlist ''Road Trip'' ''songs for the road'' new_manager =
   create_playlist ''Road Trip'' ''quiet evening'' new_manager \<and>
   create_playlist ''Road Trip'' ''songs for the road'' new_manager =
     (True, \<lparr>playlists = [''Road Trip'' \<mapsto> new_playlist],
             current_playlist_name = Some ''Road Trip''\<rparr>)"
  by (simp add: create_playlist_def new_manager_def)

text \<open>The amended claim C2 for a name that exists and for a name that is new.\<close>

theorem create_playlist_correct_witness:
  "''Road Trip'' \<in> dom (playlists example_manager) \<and>
   create_playlist ''Road Trip'' ''again'' example_manager = (False, example_manager) \<and>
   ''Evening'' \<notin> dom (playlists example_manager) \<and>
   playlists (snd (create_playlist ''Evening'' ''calm'' example_manager)) ''Evening'' = Some new_playlist \<and>
   playlists (snd (create_playlist ''Evening'' ''calm'' example_manager)) ''Road Trip'' = Some road_trip \<and>
   current_playlist_name (snd (create_playlist ''Evening'' ''calm'' example_manager)) = Some ''Evening''"
proof -
  have a: "''Road Trip'' \<in> dom (playlists example_manager)"
    by (simp add: example_manager_def)
  have b: "''Evening'' \<notin> dom (playlists example_manager)"
    by (simp add: example_manager_def)
  have c: "''Road Trip'' \<noteq> ''Evening''" by simp
  have d: "playlists example_manager ''Road Trip'' = Some road_trip"
    by (simp add: example_manager_def)
  note t1 = create_playlist_correct[of "''Road Trip''" example_manager "''again''" "''again''"]
  note t2 = create_playlist_correct[of "''Evening''" example_manager "''calm''" "''calm''"]
  from t1 a have r1: "create_playlist ''Road Trip'' ''again'' example_manager = (False, example_manager)"
    by blast
  from t2 b have r2:
    "playlists (snd (create_playlist ''Evening'' ''calm'' example_manager)) ''Evening'' = Some new_playlist"
    "\<forall>other. other \<noteq> ''Evening'' \<longrightarrow>
       playlists (snd (create_playlist ''Evening'' ''calm'' example_manager)) other =
       playlists example_manager other"
    "current_playlist_name (snd (create_playlist ''Evening'' ''calm'' example_manager)) = Some ''Evening''"
    by blast+
  from r2(2) c d have r3:
    "playlists (snd (create_playlist ''Evening'' ''calm'' example_manager)) ''Road Trip'' = Some road_trip"
    by metis
  from a r1 b r2(1) r3 r2(3) show ?thesis by (intro conjI)
qed

text \<open>
  Claim C10. Called with a name that is not yet a key and an empty library,
  \<^verbatim>\<open>create_playlist_from_library\<close> returns false, and the manager it leaves has a new empty
  playlist under the name and the name as the current selection: the creation is not
  undone.
\<close>

theorem create_from_empty_library_keeps_playlist:
  assumes "name \<notin> dom (playlists m)"
  shows "create_playlist_from_library name [] max_songs description m =
           Inr (False, m\<lparr>playlists := (playlists m)(name \<mapsto> new_playlist),
                          current_playlist_name := Some name\<rparr>) \<and>
         is_empty new_playlist \<and> forward_nodes new_playlist = Some []"
  using assms
  by (simp add: create_playlist_from_library_def create_playlist_def is_empty_def
      new_playlist_def forward_nodes_def walk.simps)

text \<open>Claim C10 on a manager that holds one playlist.\<close>

theorem create_from_empty_library_keeps_playlist_witness:
  "''Evening'' \<notin> dom (playlists example_manager) \<and>
   create_playlist_from_library ''Evening'' [] 10 ''calm'' example_manager =
     Inr (False, \<lparr>playlists = [''Road Trip'' \<mapsto> road_trip, ''Evening'' \<mapsto> new_playlist],
                  current_playlist_name = Some ''Evening''\<rparr>)"
proof -
  have b: "''Evening'' \<notin> dom (playlists example_manager)"
    by (simp add: example_manager_def)
  from create_from_empty_library_keeps_playlist[OF b, of 10 "''calm''"]
  have "create_playlist_from_library ''Evening'' [] 10 ''calm'' example_manager =
           Inr (False, example_manager\<lparr>playlists := (playlists example_manager)(''Evening'' \<mapsto> new_playlist),
                          current_playlist_name := Some ''Evening''\<rparr>)"
    by simp
  with b show ?thesis by (simp add: example_manager_def)
qed

end
